theory Spec2Isabelle
  imports Main "HOL-Library.List_Lexorder" "HOL-Library.Sublist" "HOL-Library.Multiset"
begin

section \<open>Paragraph extraction of the Rendition class (src/rendition.js)\<close>

text \<open>
  The development embeds \<^verbatim>\<open>getCurrentViewText\<close>, \<^verbatim>\<open>getCurrentViewParagraphs\<close>,
  \<^verbatim>\<open>_getParagraphsFromRange\<close>, \<^verbatim>\<open>_getTextNodesInRange\<close> and
  \<^verbatim>\<open>_findContainingBlockElement\<close> of \<^verbatim>\<open>src/rendition.js\<close>, together with the part
  of the DOM these functions call (Range, TreeWalker, \<^verbatim>\<open>Element.matches\<close>).
\<close>

subsection \<open>JavaScript strings\<close>

text \<open>
  A text is a list of UTF-16 code units; the model covers the code units below 256, one
  \<^typ>\<open>char\<close> each, so that \<^verbatim>\<open>s.length\<close> is \<^term>\<open>length s\<close>. The white space that
  \<^verbatim>\<open>String.prototype.trim\<close> removes is, in that interval, TAB, LF, VT, FF, CR, SPACE and
  NO-BREAK SPACE.
\<close>

definition isWhiteSpace :: "char \<Rightarrow> bool" where
  "isWhiteSpace c = ((of_char c :: nat) \<in> {9, 10, 11, 12, 13, 32, 160})"

definition trim :: "string \<Rightarrow> string" where
  "trim s = rev (dropWhile isWhiteSpace (rev (dropWhile isWhiteSpace s)))"

text \<open>\<^verbatim>\<open>s.substring(a)\<close> and \<^verbatim>\<open>s.substring(0, b)\<close> for non-negative integers \<^verbatim>\<open>a\<close>,
  \<^verbatim>\<open>b\<close>: both clamp at the length of \<^verbatim>\<open>s\<close>, as \<^const>\<open>drop\<close> and \<^const>\<open>take\<close> do.\<close>

definition substringFrom :: "string \<Rightarrow> nat \<Rightarrow> string" where
  "substringFrom s a = drop a s"

definition substringTo :: "string \<Rightarrow> nat \<Rightarrow> string" where
  "substringTo s b = take b s"

subsection \<open>The document tree\<close>

text \<open>
  A document is a tree of element and text nodes. The root of the tree is the Document
  node itself (an \<open>Element\<close> whose tag is not looked at). A node is identified by its path
  from the root, the list of child indices: two nodes are the same object
  (\<^verbatim>\<open>===\<close>) exactly when their paths are equal.
\<close>

datatype node = Element string "node list" | Text string

type_synonym path = "nat list"

fun nodeAt :: "node \<Rightarrow> path \<Rightarrow> node option" where
  "nodeAt n [] = Some n"
| "nodeAt (Element t cs) (i # p) = (if i < length cs then nodeAt (cs ! i) p else None)"
| "nodeAt (Text s) (i # p) = None"

text \<open>\<^verbatim>\<open>node.textContent || ""\<close> of a text node: its character data.\<close>

definition textContent :: "node \<Rightarrow> path \<Rightarrow> string" where
  "textContent d p = (case nodeAt d p of Some (Text s) \<Rightarrow> s | _ \<Rightarrow> [])"

text \<open>The length of a node in the sense of the DOM: the number of code units of a text
  node, the number of children of any other node.\<close>

definition nodeLength :: "node \<Rightarrow> path \<Rightarrow> nat option" where
  "nodeLength d p =
     (case nodeAt d p of
        None \<Rightarrow> None
      | Some (Text s) \<Rightarrow> Some (length s)
      | Some (Element t cs) \<Rightarrow> Some (length cs))"

text \<open>\<^verbatim>\<open>node.parentElement\<close>: the parent when it is an element. The parent of a child of
  the Document node is the Document, which is not an element.\<close>

definition parentElement :: "path \<Rightarrow> path option" where
  "parentElement p = (if 2 \<le> length p then Some (butlast p) else None)"

text \<open>\<^verbatim>\<open>node.ownerDocument\<close> is null for the Document node and the document otherwise;
  the model records whether it is non-null.\<close>

definition hasOwnerDocument :: "path \<Rightarrow> bool" where
  "hasOwnerDocument p = (p \<noteq> [])"

text \<open>The text nodes of a subtree in tree order, as paths relative to the root of the
  subtree (the root included when it is a text node).\<close>

fun textPaths :: "node \<Rightarrow> path list"
  and textPathsList :: "nat \<Rightarrow> node list \<Rightarrow> path list" where
  "textPaths (Text s) = [[]]"
| "textPaths (Element t cs) = textPathsList 0 cs"
| "textPathsList i [] = []"
| "textPathsList i (c # cs) = map ((#) i) (textPaths c) @ textPathsList (Suc i) cs"

subsection \<open>DOM ranges\<close>

text \<open>
  A boundary point is a node and an offset into it. The boundary point \<open>(p, k)\<close> is
  before \<open>(q, j)\<close> in the sense of the DOM exactly when \<open>p @ [k]\<close> is below \<open>q @ [j]\<close> in the
  lexicographic order of paths, in which a proper prefix comes first.
\<close>

record range =
  startContainer :: path
  startOffset :: nat
  endContainer :: path
  endOffset :: nat

definition bpKey :: "path \<Rightarrow> nat \<Rightarrow> nat list" where
  "bpKey p k = p @ [k]"

definition startKey :: "range \<Rightarrow> nat list" where
  "startKey r = bpKey (startContainer r) (startOffset r)"

definition endKey :: "range \<Rightarrow> nat list" where
  "endKey r = bpKey (endContainer r) (endOffset r)"

text \<open>\<^verbatim>\<open>document.createRange()\<close>: both boundary points at \<open>(document, 0)\<close>.\<close>

definition createRange :: "range" where
  "createRange = \<lparr>startContainer = [], startOffset = 0, endContainer = [], endOffset = 0\<rparr>"

text \<open>
  \<^verbatim>\<open>range.setStart(node, offset)\<close> and \<^verbatim>\<open>range.setEnd(node, offset)\<close>. An offset greater
  than the length of the node throws (IndexSizeError), which is \<open>None\<close>. Setting the start
  after the end moves the end to the new start; setting the end before the start moves
  the start to the new end.
\<close>

definition setStart :: "node \<Rightarrow> range \<Rightarrow> path \<Rightarrow> nat \<Rightarrow> range option" where
  "setStart d r p k =
     (case nodeLength d p of
        None \<Rightarrow> None
      | Some n \<Rightarrow>
          if n < k then None
          else if endKey r < bpKey p k
          then Some \<lparr>startContainer = p, startOffset = k, endContainer = p, endOffset = k\<rparr>
          else Some (r\<lparr>startContainer := p, startOffset := k\<rparr>))"

definition setEnd :: "node \<Rightarrow> range \<Rightarrow> path \<Rightarrow> nat \<Rightarrow> range option" where
  "setEnd d r p k =
     (case nodeLength d p of
        None \<Rightarrow> None
      | Some n \<Rightarrow>
          if n < k then None
          else if bpKey p k < startKey r
          then Some \<lparr>startContainer = p, startOffset = k, endContainer = p, endOffset = k\<rparr>
          else Some (r\<lparr>endContainer := p, endOffset := k\<rparr>))"

text \<open>\<^verbatim>\<open>range.commonAncestorContainer\<close>: the deepest node that is an inclusive ancestor
  of both containers, the longest common prefix of their paths.\<close>

fun commonPrefix :: "path \<Rightarrow> path \<Rightarrow> path" where
  "commonPrefix (x # xs) (y # ys) = (if x = y then x # commonPrefix xs ys else [])"
| "commonPrefix xs ys = []"

definition commonAncestorContainer :: "range \<Rightarrow> path" where
  "commonAncestorContainer r = commonPrefix (startContainer r) (endContainer r)"

text \<open>
  \<^verbatim>\<open>range.intersectsNode(node)\<close>: true for a node without parent; otherwise, with
  \<open>parent\<close> the parent of the node and \<open>i\<close> its index, true exactly when \<open>(parent, i)\<close> is
  before the end and \<open>(parent, i + 1)\<close> is after the start of the range.
\<close>

definition intersectsNode :: "range \<Rightarrow> path \<Rightarrow> bool" where
  "intersectsNode r q =
     (if q = [] then True
      else bpKey (butlast q) (last q) < endKey r \<and> startKey r < bpKey (butlast q) (Suc (last q)))"

text \<open>A node is contained in a range when \<open>(node, 0)\<close> is after the start and
  \<open>(node, length)\<close> is before the end of the range.\<close>

definition containedIn :: "node \<Rightarrow> range \<Rightarrow> path \<Rightarrow> bool" where
  "containedIn d r q =
     (case nodeLength d q of
        None \<Rightarrow> False
      | Some n \<Rightarrow> startKey r < bpKey q 0 \<and> bpKey q n < endKey r)"

definition isText :: "node \<Rightarrow> path \<Rightarrow> bool" where
  "isText d p = (case nodeAt d p of Some (Text s) \<Rightarrow> True | _ \<Rightarrow> False)"

text \<open>
  \<^verbatim>\<open>range.toString()\<close>: when both containers are one text node, its data between the two
  offsets; otherwise the data of the start container from the start offset on (when it is
  a text node), then the data of all text nodes contained in the range, in tree order,
  then the data of the end container up to the end offset (when it is a text node).
\<close>

definition toString :: "node \<Rightarrow> range \<Rightarrow> string" where
  "toString d r =
     (if startContainer r = endContainer r \<and> isText d (startContainer r)
      then drop (startOffset r) (take (endOffset r) (textContent d (startContainer r)))
      else
        (if isText d (startContainer r)
         then substringFrom (textContent d (startContainer r)) (startOffset r) else [])
        @ concat (map (textContent d) (filter (containedIn d r) (textPaths d)))
        @ (if isText d (endContainer r)
           then substringTo (textContent d (endContainer r)) (endOffset r) else []))"

subsection \<open>Text nodes of a range\<close>

text \<open>
  \<^verbatim>\<open>_getTextNodesInRange(range)\<close> walks a TreeWalker rooted at the common ancestor
  container with \<^verbatim>\<open>NodeFilter.SHOW_TEXT\<close> and a filter that accepts the nodes for which
  \<^verbatim>\<open>range.intersectsNode\<close> holds. \<^verbatim>\<open>nextNode()\<close> visits the descendants of the root in
  tree order and never the root itself: the walker sees the text nodes of the document
  that have the root as a proper ancestor. When the common ancestor is the Document node
  its \<^verbatim>\<open>ownerDocument\<close> is null, the call on it throws, the exception is caught and the
  list stays empty.
\<close>

definition walkerTextNodes :: "node \<Rightarrow> path \<Rightarrow> path list" where
  "walkerTextNodes d root = filter (strict_prefix root) (textPaths d)"

definition getTextNodesInRange :: "node \<Rightarrow> range \<Rightarrow> path list" where
  "getTextNodesInRange d r =
     (if \<not> hasOwnerDocument (commonAncestorContainer r) then []
      else filter (intersectsNode r) (walkerTextNodes d (commonAncestorContainer r)))"

subsection \<open>Nearest block-level ancestor\<close>

definition blockSelectors :: "string list" where
  "blockSelectors =
     [''p'', ''div'', ''h1'', ''h2'', ''h3'', ''h4'', ''h5'', ''h6'', ''li'', ''blockquote'',
      ''pre'', ''article'', ''section'', ''aside'', ''header'', ''footer'', ''main'', ''nav'',
      ''figure'', ''figcaption'', ''dd'', ''dt'']"

text \<open>\<^verbatim>\<open>element.matches(selectors)\<close> for a list of type selectors: the tag of the element
  is one of them. The \<^verbatim>\<open>catch\<close> branch of \<^verbatim>\<open>_findContainingBlockElement\<close>, which tries the
  selectors one by one when the call with the whole list throws, returns the same element
  and is not modelled apart.\<close>

definition matches :: "node \<Rightarrow> path \<Rightarrow> string list \<Rightarrow> bool" where
  "matches d e sels = (case nodeAt d e of Some (Element t cs) \<Rightarrow> t \<in> set sels | _ \<Rightarrow> False)"

text \<open>The loop \<^verbatim>\<open>while (element) { if (element.matches(blockSelectors)) return element;
  element = element.parentElement; } return null\<close>.\<close>

function blockLoop :: "node \<Rightarrow> path option \<Rightarrow> path option" where
  "blockLoop d None = None"
| "blockLoop d (Some e) =
     (if matches d e blockSelectors then Some e else blockLoop d (parentElement e))"
  by pat_completeness auto
termination
  by (relation "measure (\<lambda>(d, e). case e of None \<Rightarrow> 0 | Some p \<Rightarrow> Suc (length p))")
     (auto simp: parentElement_def split: if_splits)

definition findContainingBlockElement :: "node \<Rightarrow> path \<Rightarrow> path option" where
  "findContainingBlockElement d textNode = blockLoop d (parentElement textNode)"

subsection \<open>The EpubCFI library and the collaborators of the rendition\<close>

text \<open>
  The EpubCFI library is consumed through three calls, taken as parameters:
  \<^verbatim>\<open>new EpubCFI(str)\<close> (returns normally or throws), \<^verbatim>\<open>cfi.toRange(document)\<close> (throws,
  returns null or returns a range) and \<^verbatim>\<open>contents.cfiFromRange(range, ignoreClass).toString()\<close>
  (throws or returns the serialization).
\<close>

datatype 'a outcome = Throws | Null | Value 'a

record epubcfi =
  cfiNew :: "string \<Rightarrow> bool"
  cfiToRange :: "string \<Rightarrow> node \<Rightarrow> range outcome"
  cfiFromRange :: "range \<Rightarrow> string option"

text \<open>The objects \<^verbatim>\<open>{ text, cfiRange }\<close> pushed by \<^verbatim>\<open>_getParagraphsFromRange\<close>.\<close>

record paragraphUnit =
  "text" :: string
  cfiRange :: string

text \<open>The object \<^verbatim>\<open>{ text, startCfi, endCfi }\<close> returned by \<^verbatim>\<open>getCurrentViewText\<close>; its
  field \<^verbatim>\<open>text\<close> is \<open>pageText\<close> here.\<close>

record pageText =
  pageText :: string
  startCfi :: string
  endCfi :: string

record pageMapping =
  "start" :: "string option"
  "end" :: "string option"

record visibleSection =
  index :: nat
  mapping :: "pageMapping option"

record contents =
  document :: "node option"

record view =
  contents :: "contents option"

text \<open>\<^verbatim>\<open>manager.currentLocation()\<close> and \<^verbatim>\<open>manager.views.find({ index: i })\<close>.\<close>

record manager =
  currentLocation :: "visibleSection option list option"
  viewsFind :: "nat \<Rightarrow> view option"

record rendition =
  manager :: "manager option"

record options =
  minLength :: "nat option"

subsection \<open>Grouping text nodes by block element\<close>

text \<open>
  \<^verbatim>\<open>blockElementToTextNodes\<close> is a \<^verbatim>\<open>Map\<close> from block elements to lists of text nodes.
  A \<^verbatim>\<open>Map\<close> compares keys by identity and iterates in insertion order, so it is an
  association list. \<open>groupPush m b t\<close> is
  \<^verbatim>\<open>if (!m.has(b)) m.set(b, []); m.get(b).push(t)\<close>.
\<close>

type_synonym groups = "(path \<times> path list) list"

fun groupPush :: "groups \<Rightarrow> path \<Rightarrow> path \<Rightarrow> groups" where
  "groupPush [] b t = [(b, [t])]"
| "groupPush ((k, ts) # m) b t =
     (if k = b then (k, ts @ [t]) # m else (k, ts) # groupPush m b t)"

definition groupStep :: "node \<Rightarrow> groups \<Rightarrow> path \<Rightarrow> groups" where
  "groupStep d m textNode =
     (case findContainingBlockElement d textNode of
        None \<Rightarrow> m
      | Some blockElement \<Rightarrow> groupPush m blockElement textNode)"

definition blockElementToTextNodes :: "node \<Rightarrow> path list \<Rightarrow> groups" where
  "blockElementToTextNodes d textNodes = foldl (groupStep d) [] textNodes"

subsection \<open>One paragraph per group\<close>

text \<open>The variables of the inner loop of \<^verbatim>\<open>_getParagraphsFromRange\<close>.\<close>

record extraction =
  elementText :: string
  firstTextNode :: "path option"
  lastTextNode :: "path option"
  firstTextOffset :: nat
  lastTextOffset :: nat

definition extractionInit :: extraction where
  "extractionInit =
     \<lparr>elementText = [], firstTextNode = None, lastTextNode = None,
      firstTextOffset = 0, lastTextOffset = 0\<rparr>"

text \<open>One iteration of \<^verbatim>\<open>for (const textNode of textNodes)\<close>: the start container is
  tested first, the end container in the \<^verbatim>\<open>else if\<close>, every other node in the \<^verbatim>\<open>else\<close>.\<close>

definition extractStep :: "node \<Rightarrow> range \<Rightarrow> extraction \<Rightarrow> path \<Rightarrow> extraction" where
  "extractStep d r a textNode =
     (let nodeText = textContent d textNode;
          first = (case firstTextNode a of None \<Rightarrow> Some textNode | Some f \<Rightarrow> Some f);
          a1 = a\<lparr>firstTextNode := first, lastTextNode := Some textNode\<rparr>
      in if textNode = startContainer r
         then a1\<lparr>elementText := elementText a @ substringFrom nodeText (startOffset r),
                 firstTextOffset := startOffset r\<rparr>
         else if textNode = endContainer r
         then a1\<lparr>elementText := elementText a @ substringTo nodeText (endOffset r),
                 lastTextOffset := endOffset r\<rparr>
         else a1\<lparr>elementText := elementText a @ nodeText,
                 firstTextOffset := (if first = Some textNode then 0 else firstTextOffset a),
                 lastTextOffset := length nodeText\<rparr>)"

definition extractGroup :: "node \<Rightarrow> range \<Rightarrow> path list \<Rightarrow> extraction" where
  "extractGroup d r textNodes = foldl (extractStep d r) extractionInit textNodes"

text \<open>
  The body of \<^verbatim>\<open>for (const [blockElement, textNodes] of blockElementToTextNodes)\<close>. \<open>None\<close>
  is \<^verbatim>\<open>continue\<close>: the trimmed text is empty, or \<^verbatim>\<open>setStart\<close>, \<^verbatim>\<open>setEnd\<close> or
  \<^verbatim>\<open>cfiFromRange\<close> threw and the exception was caught.
\<close>

definition paragraphOfGroup ::
  "epubcfi \<Rightarrow> node \<Rightarrow> range \<Rightarrow> path \<times> path list \<Rightarrow> paragraphUnit option" where
  "paragraphOfGroup lib d r g =
     (let a = extractGroup d r (snd g);
          trimmed = trim (elementText a)
      in case (firstTextNode a, lastTextNode a) of
           (Some f, Some l) \<Rightarrow>
             if trimmed = [] then None
             else
               (case setStart d createRange f (firstTextOffset a) of
                  None \<Rightarrow> None
                | Some pr \<Rightarrow>
                    (case setEnd d pr l (lastTextOffset a) of
                       None \<Rightarrow> None
                     | Some paragraphRange \<Rightarrow>
                         (case cfiFromRange lib paragraphRange of
                            None \<Rightarrow> None
                          | Some c \<Rightarrow> Some \<lparr>text = trimmed, cfiRange = c\<rparr>)))
         | _ \<Rightarrow> None)"

subsection \<open>The entry points\<close>

definition getParagraphsFromRange :: "epubcfi \<Rightarrow> node \<Rightarrow> range \<Rightarrow> paragraphUnit list" where
  "getParagraphsFromRange lib d r =
     (let fullText = toString d r
      in if trim fullText = [] then []
         else if \<not> hasOwnerDocument (commonAncestorContainer r) then []
         else
           (let textNodes = getTextNodesInRange d r
            in if textNodes = [] then []
               else List.map_filter (paragraphOfGroup lib d r)
                      (blockElementToTextNodes d textNodes)))"

text \<open>
  The \<^verbatim>\<open>try\<close> block shared by \<^verbatim>\<open>getCurrentViewText\<close> and \<^verbatim>\<open>getCurrentViewParagraphs\<close>:
  both CFIs are constructed, both are converted to ranges, and the page range is set from
  the start of the first to the end of the second. \<open>None\<close> is \<^verbatim>\<open>return null\<close>, reached
  when a range is null and, through \<^verbatim>\<open>catch\<close>, when a call threw.
\<close>

definition pageRange :: "epubcfi \<Rightarrow> node \<Rightarrow> string \<Rightarrow> string \<Rightarrow> range option" where
  "pageRange lib d s e =
     (if \<not> cfiNew lib s then None
      else if \<not> cfiNew lib e then None
      else
        (case cfiToRange lib s d of
           Throws \<Rightarrow> None
         | Null \<Rightarrow> None
         | Value startRange \<Rightarrow>
             (case cfiToRange lib e d of
                Throws \<Rightarrow> None
              | Null \<Rightarrow> None
              | Value endRange \<Rightarrow>
                  (case setStart d createRange (startContainer startRange) (startOffset startRange) of
                     None \<Rightarrow> None
                   | Some r \<Rightarrow> setEnd d r (endContainer endRange) (endOffset endRange)))))"

text \<open>The guards before the \<^verbatim>\<open>try\<close> block: the document of the view of the first
  visible section and the two CFI strings of its mapping, or \<open>None\<close> for
  \<^verbatim>\<open>return null\<close>. A CFI string of the mapping is falsy when it is undefined (\<open>None\<close>)
  or empty.\<close>

definition visiblePage :: "rendition \<Rightarrow> (node \<times> string \<times> string) option" where
  "visiblePage rend =
     (case manager rend of
        None \<Rightarrow> None
      | Some m \<Rightarrow>
          (case currentLocation m of
             None \<Rightarrow> None
           | Some [] \<Rightarrow> None
           | Some (None # rest) \<Rightarrow> None
           | Some (Some visible # rest) \<Rightarrow>
               (case mapping visible of
                  None \<Rightarrow> None
                | Some mp \<Rightarrow>
                    (case (start mp, end mp) of
                       (Some s, Some e) \<Rightarrow>
                         if s = [] \<or> e = [] then None
                         else
                           (case viewsFind m (index visible) of
                              None \<Rightarrow> None
                            | Some v \<Rightarrow>
                                (case contents v of
                                   None \<Rightarrow> None
                                 | Some c \<Rightarrow>
                                     (case document c of
                                        None \<Rightarrow> None
                                      | Some d \<Rightarrow> Some (d, s, e))))
                     | _ \<Rightarrow> None))))"

definition getCurrentViewText :: "epubcfi \<Rightarrow> rendition \<Rightarrow> pageText option" where
  "getCurrentViewText lib rend =
     (case visiblePage rend of
        None \<Rightarrow> None
      | Some (d, s, e) \<Rightarrow>
          (case pageRange lib d s e of
             None \<Rightarrow> None
           | Some r \<Rightarrow> Some \<lparr>pageText = toString d r, startCfi = s, endCfi = e\<rparr>))"

text \<open>\<^verbatim>\<open>const { minLength = 50 } = options\<close> is bound and not used again.\<close>

definition getCurrentViewParagraphs ::
  "epubcfi \<Rightarrow> rendition \<Rightarrow> options \<Rightarrow> paragraphUnit list option" where
  "getCurrentViewParagraphs lib rend opts =
     (let minLength = (case minLength opts of None \<Rightarrow> 50 | Some n \<Rightarrow> n)
      in case visiblePage rend of
           None \<Rightarrow> None
         | Some (d, s, e) \<Rightarrow>
             (case pageRange lib d s e of
                None \<Rightarrow> None
              | Some r \<Rightarrow> Some (getParagraphsFromRange lib d r)))"

subsection \<open>A sample document and a sample CFI library\<close>

text \<open>
  The document \<^verbatim>\<open><html><body><p>Alpha text.</p><p>Beta text.</p></body></html>\<close>. Its
  text nodes are at the paths \<open>[0, 0, 0, 0]\<close> and \<open>[0, 0, 1, 0]\<close>.
\<close>

definition sampleDocument :: node where
  "sampleDocument =
     Element ''#document'' [Element ''html'' [Element ''body''
       [Element ''p'' [Text ''Alpha text.''], Element ''p'' [Text ''Beta text.'']]]]"

fun showNat :: "nat \<Rightarrow> string" where
  "showNat n =
     (if n < 10 then [char_of (48 + n)] else showNat (n div 10) @ [char_of (48 + n mod 10)])"

definition showPath :: "path \<Rightarrow> string" where
  "showPath p = concat (map (\<lambda>i. CHR ''/'' # showNat i) p)"

definition showRange :: "range \<Rightarrow> string" where
  "showRange r =
     ''epubcfi('' @ showPath (startContainer r) @ '':'' @ showNat (startOffset r) @ '',''
       @ showPath (endContainer r) @ '':'' @ showNat (endOffset r) @ '')''"

text \<open>A CFI library for the examples: a location string is looked up in a table of
  collapsed ranges; strings that do not start with \<^verbatim>\<open>epubcfi(\<close> make the constructor
  throw, strings that are not in the table resolve to null.\<close>

definition pointRange :: "path \<Rightarrow> nat \<Rightarrow> range" where
  "pointRange p k = \<lparr>startContainer = p, startOffset = k, endContainer = p, endOffset = k\<rparr>"

definition sampleLib :: "(string \<times> range) list \<Rightarrow> epubcfi" where
  "sampleLib table =
     \<lparr>cfiNew = (\<lambda>s. take 8 s = ''epubcfi(''),
      cfiToRange = (\<lambda>s d. case map_of table s of None \<Rightarrow> Null | Some r \<Rightarrow> Value r),
      cfiFromRange = (\<lambda>r. Some (showRange r))\<rparr>"

definition sampleRendition :: "node \<Rightarrow> string \<Rightarrow> string \<Rightarrow> rendition" where
  "sampleRendition d s e =
     \<lparr>manager = Some
        \<lparr>currentLocation =
           Some [Some \<lparr>index = 0, mapping = Some \<lparr>start = Some s, end = Some e\<rparr>\<rparr>],
         viewsFind = (\<lambda>i. if i = 0 then Some \<lparr>contents = Some \<lparr>document = Some d\<rparr>\<rparr> else None)\<rparr>\<rparr>"

text \<open>The range from offset 1 of the first text node to offset 4 of the second.\<close>

definition sampleRange :: range where
  "sampleRange =
     \<lparr>startContainer = [0, 0, 0, 0], startOffset = 1, endContainer = [0, 0, 1, 0], endOffset = 4\<rparr>"

text \<open>The document \<^verbatim>\<open><html><body><span>ABCDE</span><span>FGHIJ</span></body></html>\<close>,
  whose text has no block-level ancestor.\<close>

definition inlineDocument :: node where
  "inlineDocument =
     Element ''#document'' [Element ''html'' [Element ''body''
       [Element ''span'' [Text ''ABCDE''], Element ''span'' [Text ''FGHIJ'']]]]"

text \<open>Locations inside the first and the second text node of either document.\<close>

definition sampleTable :: "(string \<times> range) list" where
  "sampleTable =
     [(''epubcfi(/0/0/0/0:0)'', pointRange [0, 0, 0, 0] 0),
      (''epubcfi(/0/0/0/0:1)'', pointRange [0, 0, 0, 0] 1),
      (''epubcfi(/0/0/0/0:5)'', pointRange [0, 0, 0, 0] 5),
      (''epubcfi(/0/0/0/0:6)'', pointRange [0, 0, 0, 0] 6),
      (''epubcfi(/0/0/1/0:4)'', pointRange [0, 0, 1, 0] 4),
      (''epubcfi(/0/0/1/0:5)'', pointRange [0, 0, 1, 0] 5),
      (''epubcfi(/0/0/1/0:10)'', pointRange [0, 0, 1, 0] 10),
      (''epubcfi(/0/0/0/2:3)'', pointRange [0, 0, 0, 2] 3),
      (''epubcfi(/0/0/2/0:6)'', pointRange [0, 0, 2, 0] 6)]"

text \<open>A manager that shows two sections at once: section 0 is \<open>sampleDocument\<close>, section
  1 is \<open>inlineDocument\<close>.\<close>

definition twoSectionManager :: manager where
  "twoSectionManager =
     \<lparr>currentLocation =
        Some [Some \<lparr>index = 0, mapping = Some \<lparr>start = Some ''epubcfi(/0/0/0/0:1)'',
                                              end = Some ''epubcfi(/0/0/1/0:4)''\<rparr>\<rparr>,
              Some \<lparr>index = 1, mapping = Some \<lparr>start = Some ''epubcfi(/0/0/0/0:0)'',
                                              end = Some ''epubcfi(/0/0/1/0:5)''\<rparr>\<rparr>],
      viewsFind = (\<lambda>i. if i = 0 then Some \<lparr>contents = Some \<lparr>document = Some sampleDocument\<rparr>\<rparr>
                        else if i = 1 then Some \<lparr>contents = Some \<lparr>document = Some inlineDocument\<rparr>\<rparr>
                        else None)\<rparr>"

text \<open>A location is lost when its string does not construct (\<^verbatim>\<open>new EpubCFI\<close> throws) or
  does not convert to a range of the document (\<^verbatim>\<open>toRange\<close> throws or returns null).\<close>

definition locationFails :: "epubcfi \<Rightarrow> node \<Rightarrow> string \<Rightarrow> bool" where
  "locationFails lib d s =
     (\<not> cfiNew lib s \<or> cfiToRange lib s d = Throws \<or> cfiToRange lib s d = Null)"

subsection \<open>Notions used to state the properties\<close>

text \<open>A range is valid for a document when both containers are nodes of the document,
  neither offset exceeds the length of its container, and the start is not after the
  end. Every range built by \<open>setStart\<close> and \<open>setEnd\<close> is valid.\<close>

definition validRange :: "node \<Rightarrow> range \<Rightarrow> bool" where
  "validRange d r =
     (case (nodeLength d (startContainer r), nodeLength d (endContainer r)) of
        (Some n, Some m) \<Rightarrow> startOffset r \<le> n \<and> endOffset r \<le> m \<and> startKey r \<le> endKey r
      | _ \<Rightarrow> False)"

text \<open>The contribution of one text node to the text of its group, as the inner loop of
  \<^verbatim>\<open>_getParagraphsFromRange\<close> appends it.\<close>

definition clipText :: "node \<Rightarrow> range \<Rightarrow> path \<Rightarrow> string" where
  "clipText d r t =
     (if t = startContainer r then substringFrom (textContent d t) (startOffset r)
      else if t = endContainer r then substringTo (textContent d t) (endOffset r)
      else textContent d t)"

text \<open>A text without its white space.\<close>

definition stripWhiteSpace :: "string \<Rightarrow> string" where
  "stripWhiteSpace s = filter (\<lambda>c. \<not> isWhiteSpace c) s"

text \<open>\<^verbatim>\<open>s.replace(/\s+/g, " ").trim()\<close>, the normalization of the repository's tests.\<close>

function collapseWhiteSpace :: "string \<Rightarrow> string" where
  "collapseWhiteSpace [] = []"
| "collapseWhiteSpace (c # cs) =
     (if isWhiteSpace c then CHR '' '' # collapseWhiteSpace (dropWhile isWhiteSpace cs)
      else c # collapseWhiteSpace cs)"
  by pat_completeness auto
termination
  by (relation "measure length") (auto simp: le_imp_less_Suc length_dropWhile_le)

definition normalizeWhiteSpace :: "string \<Rightarrow> string" where
  "normalizeWhiteSpace s = trim (collapseWhiteSpace s)"

text \<open>\<^verbatim>\<open>texts.join(sep)\<close>.\<close>

fun joinTexts :: "string \<Rightarrow> string list \<Rightarrow> string" where
  "joinTexts sep [] = []"
| "joinTexts sep [x] = x"
| "joinTexts sep (x # y # ys) = x @ sep @ joinTexts sep (y # ys)"

text \<open>A text node of a range is not blank when the part of its text that lies inside
  the range has a character other than white space.\<close>

definition nonWhite :: "node \<Rightarrow> range \<Rightarrow> path \<Rightarrow> bool" where
  "nonWhite d r t = (stripWhiteSpace (clipText d r t) \<noteq> [])"

text \<open>A block element is resumed in a list of text nodes when the list has three text
  nodes \<open>x\<close>, \<open>y\<close>, \<open>z\<close>, in document order, such that \<open>x\<close> and \<open>z\<close> have the same nearest
  block-level ancestor, \<open>y\<close> has another one, and neither \<open>y\<close> nor \<open>z\<close> is blank: text
  of the block of \<open>x\<close> follows text of another block that was entered after it. Blank
  text nodes count only in the place of \<open>x\<close>, where the group of the block is opened.\<close>

definition blockResumed :: "node \<Rightarrow> range \<Rightarrow> path list \<Rightarrow> bool" where
  "blockResumed d r ts =
     (\<exists>x \<in> set ts. \<exists>y \<in> set ts. \<exists>z \<in> set ts.
        x < y \<and> y < z \<and>
        findContainingBlockElement d x \<noteq> None \<and>
        findContainingBlockElement d z = findContainingBlockElement d x \<and>
        findContainingBlockElement d y \<noteq> None \<and>
        findContainingBlockElement d y \<noteq> findContainingBlockElement d x \<and>
        nonWhite d r y \<and> nonWhite d r z)"

text \<open>The document \<^verbatim>\<open><html><body><div>foo<p>bar</p>baz</div></body></html>\<close>, in which
  the text of the \<^verbatim>\<open>div\<close> is interrupted by a nested paragraph.\<close>

definition nestedDocument :: node where
  "nestedDocument =
     Element ''#document'' [Element ''html'' [Element ''body''
       [Element ''div'' [Text ''foo'', Element ''p'' [Text ''bar''], Text ''baz'']]]]"

text \<open>The document \<^verbatim>\<open><html><body><p>First one.</p> <p>Second</p></body></html>\<close>, with
  a text node of one space between the two paragraphs.\<close>

definition spacedDocument :: node where
  "spacedDocument =
     Element ''#document'' [Element ''html'' [Element ''body''
       [Element ''p'' [Text ''First one.''], Text '' '', Element ''p'' [Text ''Second'']]]]"

text \<open>The document \<^verbatim>\<open><html><body><div>LF<p>bar</p>baz</div></body></html>\<close>, where
  \<^verbatim>\<open>LF\<close> stands for a line break: the \<^verbatim>\<open>div\<close> starts with a blank text node and has
  text of its own after the nested paragraph.\<close>

definition leadingDocument :: node where
  "leadingDocument =
     Element ''#document'' [Element ''html'' [Element ''body''
       [Element ''div'' [Text [CHR 0x0A], Element ''p'' [Text ''bar''], Text ''baz'']]]]"

text \<open>The document
  \<^verbatim>\<open><html><body><div>LF<p>First one.</p>LF<p>Second</p>LF</div></body></html>\<close>:
  two paragraphs wrapped in a \<^verbatim>\<open>div\<close>, with line breaks between the tags. Its text nodes
  are at the paths \<open>[0, 0, 0, 0]\<close>, \<open>[0, 0, 0, 1, 0]\<close>, \<open>[0, 0, 0, 2]\<close>, \<open>[0, 0, 0, 3, 0]\<close>
  and \<open>[0, 0, 0, 4]\<close>; the table has the locations of its first and last position.\<close>

definition wrappedDocument :: node where
  "wrappedDocument =
     Element ''#document'' [Element ''html'' [Element ''body''
       [Element ''div''
          [Text [CHR 0x0A], Element ''p'' [Text ''First one.''], Text [CHR 0x0A],
           Element ''p'' [Text ''Second''], Text [CHR 0x0A]]]]]"

definition wrappedTable :: "(string \<times> range) list" where
  "wrappedTable =
     [(''epubcfi(/0/0/0/0:0)'', pointRange [0, 0, 0, 0] 0),
      (''epubcfi(/0/0/0/4:1)'', pointRange [0, 0, 0, 4] 1)]"

subsection \<open>The page predictor\<close>

text \<open>
  Modelled from the spec: \<^verbatim>\<open>getNextViewParagraphs\<close> and its helpers (the Page Predictor)
  are not part of \<^verbatim>\<open>src/rendition.js\<close>; only their description in the bug-fix summaries
  and their tests are. The page state of a document unit, as section 3 of the spec gives
  it.
\<close>

record pageState =
  pageWidth :: nat
  totalPages :: nat
  currentPages :: "nat list"

text \<open>Modelled from the spec: the failure of the cross-section path (section 7); the
  location failures of the taxonomy resolve to an empty list of units and need no state
  of their own here.\<close>

datatype failure = SectionLoadTimeout

text \<open>Modelled from the spec: the states of the predictor (section 4.4): \<open>Idle\<close>,
  \<open>ComputingSamePage\<close> or \<open>ComputingCrossSection\<close>, then \<open>Resolved\<close> or \<open>Failed\<close>.\<close>

datatype predictorState =
  Idle | ComputingSamePage | ComputingCrossSection
  | Resolved "paragraphUnit list" | Failed failure

text \<open>Modelled from the spec: the two tasks of the cross-section path report into a
  single-resolution channel (section 9): the loader reports the tree it loaded, the
  timer reports that it fired.\<close>

datatype report = LoadCompleted node | TimerFired

text \<open>Modelled from the spec: the collaborators of the predictor. \<open>paragraphsOfWindow\<close>
  stands for the locations of a page window of a unit, resolved and fed to the Paragraph
  Builder. \<open>loadUnit k\<close> is the behaviour of the \<open>k\<close>-th load request for the next unit:
  \<open>None\<close> when it never completes, otherwise the instant at which it completes and the
  tree it delivers.\<close>

record collaborators =
  currentUnit :: node
  paragraphsOfWindow :: "node \<Rightarrow> nat \<Rightarrow> nat \<Rightarrow> paragraphUnit list"
  loadUnit :: "nat \<Rightarrow> (nat \<times> node) option"

text \<open>Modelled from the spec: the default bound of the race, 10 time units.\<close>

definition defaultTimeout :: nat where
  "defaultTimeout = 10"

text \<open>Modelled from the spec: \<^verbatim>\<open>currentPages.max\<close>.\<close>

definition currentMax :: "pageState \<Rightarrow> nat" where
  "currentMax ps = foldr max (currentPages ps) 0"

text \<open>Modelled from the spec: the length filter drops every unit with
  \<^verbatim>\<open>text.length < minLength\<close>.\<close>

definition lengthFilter :: "nat \<Rightarrow> paragraphUnit list \<Rightarrow> paragraphUnit list" where
  "lengthFilter n ps = filter (\<lambda>p. \<not> length (text p) < n) ps"

text \<open>Modelled from the spec: the same-section path is taken when
  \<^verbatim>\<open>currentPages.max < totalPages\<close>, the cross-section path otherwise.\<close>

definition choosePath :: "pageState \<Rightarrow> predictorState" where
  "choosePath ps =
     (if currentMax ps < totalPages ps then ComputingSamePage else ComputingCrossSection)"

text \<open>Modelled from the spec: the reports of one race, in the order in which they arrive.
  The timer fires at the bound; a load that has completed by then reports first, any
  other load reports after the timer or never.\<close>

definition reports :: "nat \<Rightarrow> (nat \<times> node) option \<Rightarrow> report list" where
  "reports bound load =
     (case load of
        None \<Rightarrow> [TimerFired]
      | Some (t, tree) \<Rightarrow>
          if t \<le> bound then [LoadCompleted tree, TimerFired]
          else [TimerFired, LoadCompleted tree])"

text \<open>Modelled from the spec: the first report decides. A loaded unit gives the units
  of its window \<open>[0, pageWidth)\<close>, filtered by length; a timer that fires first gives
  \<open>Failed SectionLoadTimeout\<close>; a report that arrives after the decision is discarded.\<close>

fun deliver :: "collaborators \<Rightarrow> pageState \<Rightarrow> nat \<Rightarrow> predictorState \<Rightarrow> report \<Rightarrow> predictorState"
  where
  "deliver c ps n ComputingCrossSection (LoadCompleted tree) =
     Resolved (lengthFilter n (paragraphsOfWindow c tree 0 (pageWidth ps)))"
| "deliver c ps n ComputingCrossSection TimerFired = Failed SectionLoadTimeout"
| "deliver c ps n st rp = st"

text \<open>Modelled from the spec: \<^verbatim>\<open>predictNext\<close>. On the same-section path the next page is
  \<^verbatim>\<open>currentPages.max + 1\<close> and its window is
  \<open>[(nextPage - 1) * pageWidth, nextPage * pageWidth)\<close>. On the cross-section path the
  next unit is requested once (request 0) and raced against the bound.\<close>

definition predictNext :: "collaborators \<Rightarrow> pageState \<Rightarrow> nat \<Rightarrow> nat \<Rightarrow> predictorState" where
  "predictNext c ps n bound =
     (case choosePath ps of
        ComputingSamePage \<Rightarrow>
          (let nextPage = currentMax ps + 1
           in Resolved (lengthFilter n
                (paragraphsOfWindow c (currentUnit c)
                   ((nextPage - 1) * pageWidth ps) (nextPage * pageWidth ps))))
      | st \<Rightarrow> foldl (deliver c ps n) st (reports bound (loadUnit c 0)))"

text \<open>Modelled from the spec: \<^verbatim>\<open>getNextPageParagraphs\<close> always resolves; every failure
  resolves to the empty list.\<close>

definition getNextPageParagraphs ::
  "collaborators \<Rightarrow> pageState \<Rightarrow> nat \<Rightarrow> nat \<Rightarrow> paragraphUnit list" where
  "getNextPageParagraphs c ps n bound =
     (case predictNext c ps n bound of Resolved units \<Rightarrow> units | _ \<Rightarrow> [])"

text \<open>Modelled from the spec: the instant at which \<^verbatim>\<open>getNextPageParagraphs\<close> resolves:
  at once on the same-section path, with the first report on the cross-section path.\<close>

definition resolvedAt :: "collaborators \<Rightarrow> pageState \<Rightarrow> nat \<Rightarrow> nat" where
  "resolvedAt c ps bound =
     (case choosePath ps of
        ComputingSamePage \<Rightarrow> 0
      | _ \<Rightarrow> (case loadUnit c 0 of None \<Rightarrow> bound | Some (t, tree) \<Rightarrow> min t bound))"

section \<open>Properties\<close>

subsection \<open>Grouping\<close>

lemma groupPush_keys:
  "map fst (groupPush m b t) = (if b \<in> fst ` set m then map fst m else map fst m @ [b])"
  by (induction m b t rule: groupPush.induct) auto

lemma groupPush_distinct:
  "distinct (map fst m) \<Longrightarrow> distinct (map fst (groupPush m b t))"
  by (simp add: groupPush_keys)

lemma groupPush_member:
  "(k, ns) \<in> set (groupPush m b t) \<Longrightarrow>
     (k, ns) \<in> set m \<or> (k = b \<and> (\<exists>ns'. ns = ns' @ [t] \<and> (ns' = [] \<or> (b, ns') \<in> set m)))"
  by (induction m b t rule: groupPush.induct) (auto split: if_splits)

lemma groupPush_mset:
  "mset (concat (map snd (groupPush m b t))) = add_mset t (mset (concat (map snd m)))"
  by (induction m b t rule: groupPush.induct) auto

lemma groupStep_keys_distinct:
  "distinct (map fst m) \<Longrightarrow> distinct (map fst (groupStep d m t))"
  by (simp add: groupStep_def groupPush_distinct split: option.splits)

lemma groupStep_member:
  assumes "\<forall>(b, ns) \<in> set m. \<forall>u \<in> set ns. findContainingBlockElement d u = Some b"
    and "(k, ns) \<in> set (groupStep d m t)" and "u \<in> set ns"
  shows "findContainingBlockElement d u = Some k"
proof (cases "findContainingBlockElement d t")
  case None
  then show ?thesis using assms by (auto simp: groupStep_def)
next
  case (Some b)
  then have "(k, ns) \<in> set (groupPush m b t)" using assms(2) by (simp add: groupStep_def)
  from groupPush_member[OF this] show ?thesis using assms(1,3) Some by fastforce
qed

lemma groups_keys_distinct: "distinct (map fst (blockElementToTextNodes d ts))"
  unfolding blockElementToTextNodes_def
  by (induction ts rule: rev_induct) (simp_all add: groupStep_keys_distinct)

lemma groups_member:
  "\<forall>(b, ns) \<in> set (blockElementToTextNodes d ts).
     \<forall>u \<in> set ns. findContainingBlockElement d u = Some b"
  unfolding blockElementToTextNodes_def
proof (induction ts rule: rev_induct)
  case Nil
  show ?case by simp
next
  case (snoc x xs)
  show ?case using groupStep_member[OF snoc] by auto
qed

lemma groups_mset:
  "mset (concat (map snd (blockElementToTextNodes d ts))) =
   mset (filter (\<lambda>t. findContainingBlockElement d t \<noteq> None) ts)"
  unfolding blockElementToTextNodes_def
  by (induction ts rule: rev_induct) (auto simp: groupStep_def groupPush_mset split: option.splits)

lemma groups_concat_distinct:
  assumes "distinct ts"
  shows "distinct (concat (map snd (blockElementToTextNodes d ts)))"
proof -
  have "distinct (filter (\<lambda>t. findContainingBlockElement d t \<noteq> None) ts)"
    using assms by simp
  then show ?thesis
    using groups_mset[of d ts] by (metis mset_eq_imp_distinct_iff)
qed

subsection \<open>Tree order of the text nodes\<close>

lemma textPaths_sorted_aux:
  "sorted_wrt (<) (textPaths n)"
  "sorted_wrt (<) (textPathsList i cs) \<and>
     (\<forall>p \<in> set (textPathsList i cs). \<exists>j q. p = j # q \<and> i \<le> j)"
proof (induction n and i cs rule: textPaths_textPathsList.induct)
  case (4 i c cs)
  then show ?case
    by (fastforce simp: sorted_wrt_append sorted_wrt_map)
qed auto

lemma textPaths_sorted: "sorted_wrt (<) (textPaths n)"
  by (rule textPaths_sorted_aux)

lemma getTextNodesInRange_sorted: "sorted_wrt (<) (getTextNodesInRange d r)"
  unfolding getTextNodesInRange_def walkerTextNodes_def
  by (auto intro!: sorted_wrt_filter textPaths_sorted)

lemma getTextNodesInRange_distinct: "distinct (getTextNodesInRange d r)"
  using getTextNodesInRange_sorted strict_sorted_iff by blast

subsection \<open>The nearest block-level ancestor\<close>

lemma blockLoop_nearest:
  "blockLoop d eo = Some b \<Longrightarrow> eo = Some e \<Longrightarrow> e \<noteq> [] \<Longrightarrow>
     prefix b e \<and> b \<noteq> [] \<and> matches d b blockSelectors \<and>
     (\<forall>a. prefix a e \<and> strict_prefix b a \<longrightarrow> \<not> matches d a blockSelectors)"
proof (induction d eo arbitrary: e rule: blockLoop.induct)
  case (1 d)
  then show ?case by simp
next
  case (2 d e')
  have ee: "e' = e" using "2.prems"(2) by simp
  show ?case
  proof (cases "matches d e blockSelectors")
    case True
    then have "b = e" using "2.prems"(1) ee by simp
    then show ?thesis using True "2.prems"(3) by auto
  next
    case False
    then have bl: "blockLoop d (parentElement e) = Some b" using "2.prems"(1) ee by simp
    then obtain pe where pe: "parentElement e = Some pe" by (cases "parentElement e") auto
    then have pe_def: "pe = butlast e" and len: "2 \<le> length e"
      by (auto simp: parentElement_def split: if_splits)
    have pne: "pe \<noteq> []" using len pe_def by (cases e rule: rev_cases) auto
    have f1: "\<not> matches d e' blockSelectors" using False ee by simp
    have f2: "blockLoop d (parentElement e') = Some b" using bl ee by simp
    have f3: "parentElement e' = Some pe" using pe ee by simp
    note ih = "2.IH"[OF f1 f2 f3 pne]
    have p1: "prefix pe e" unfolding pe_def by (simp add: prefixeq_butlast)
    have "\<not> matches d a blockSelectors" if "prefix a e" "strict_prefix b a" for a
    proof (cases "a = e")
      case True
      then show ?thesis using False by simp
    next
      case False
      have "pe @ [last e] = e" using pe_def "2.prems"(3) by simp
      then have "prefix a (pe @ [last e])" "a \<noteq> pe @ [last e]" using that(1) False by simp_all
      then have "prefix a pe" by simp
      then show ?thesis using ih that(2) by blast
    qed
    moreover have "prefix b e" using ih p1 by (meson prefix_order.trans)
    ultimately show ?thesis using ih by blast
  qed
qed

lemma findContainingBlockElement_nearest:
  assumes "findContainingBlockElement d t = Some b"
  shows "strict_prefix b t \<and> b \<noteq> [] \<and> matches d b blockSelectors \<and>
     (\<forall>a. strict_prefix a t \<and> strict_prefix b a \<longrightarrow> \<not> matches d a blockSelectors)"
proof -
  from assms obtain e where e: "parentElement t = Some e" and bl: "blockLoop d (Some e) = Some b"
    by (cases "parentElement t") (auto simp: findContainingBlockElement_def)
  from e have e_def: "e = butlast t" and len: "2 \<le> length t"
    by (auto simp: parentElement_def split: if_splits)
  then have tne: "t \<noteq> []" and ene: "e \<noteq> []" by (cases t rule: rev_cases; auto)+
  have snoc: "e @ [last t] = t" using e_def tne by simp
  note n = blockLoop_nearest[OF bl refl ene]
  have "strict_prefix a (e @ [last t]) \<longleftrightarrow> prefix a e" for a
    by (auto simp: strict_prefix_def dest: prefix_length_le)
  then have sp: "strict_prefix a t \<longleftrightarrow> prefix a e" for a
    unfolding snoc .
  show ?thesis using n sp by auto
qed

subsection \<open>The lexicographic order of paths\<close>

lemma lex_append_same [simp]: "(p @ x < p @ y) = (x < (y :: nat list))"
  by (induction p) auto

lemma lex_less_snoc: "x < x @ (k # u)" for x :: "nat list"
  by (induction x) auto

lemma lex_sibling: "p @ i # u < p @ [Suc i]"
  by (induction p) auto

lemma lex_diverge: "x < y \<Longrightarrow> \<not> prefix x y \<Longrightarrow> x @ u < y" for x :: "nat list"
proof (induction x arbitrary: y)
  case Nil
  then show ?case by simp
next
  case (Cons a x)
  then show ?case by (cases y) auto
qed

lemma lex_below_sibling:
  "s < p @ [Suc i] \<Longrightarrow> \<not> strict_prefix (p @ [i]) s \<Longrightarrow> s \<le> p @ [i]"
proof (induction p arbitrary: s)
  case Nil
  then show ?case by (cases s) (auto simp: less_Suc_eq strict_prefix_def)
next
  case (Cons a p)
  then show ?case by (cases s) (auto simp: strict_prefix_def)
qed

lemma lex_sandwich:
  "prefix c x \<Longrightarrow> prefix c y \<Longrightarrow> x \<le> z \<Longrightarrow> z \<le> y \<Longrightarrow> prefix c z" for c :: "nat list"
proof (induction c arbitrary: x y z)
  case Nil
  then show ?case by simp
next
  case (Cons a c)
  from Cons.prems(1) obtain x' where x: "x = a # x'" and px: "prefix c x'"
    by (cases x) auto
  from Cons.prems(2) obtain y' where y: "y = a # y'" and py: "prefix c y'"
    by (cases y) auto
  from Cons.prems(3) x obtain b z' where z: "z = b # z'"
    by (cases z) auto
  have le1: "a < b \<or> a = b \<and> x' \<le> z'" using Cons.prems(3) unfolding x z by simp
  have le2: "b < a \<or> b = a \<and> z' \<le> y'" using Cons.prems(4) unfolding y z by simp
  from le1 le2 have ab: "b = a" and l1: "x' \<le> z'" and l2: "z' \<le> y'" by auto
  from Cons.IH[OF px py l1 l2] show ?case unfolding z ab by simp
qed

lemma commonPrefix_prefix1: "prefix (commonPrefix a b) a"
  by (induction a b rule: commonPrefix.induct) auto

lemma commonPrefix_prefix2: "prefix (commonPrefix a b) b"
  by (induction a b rule: commonPrefix.induct) auto

lemma commonPrefix_eq1: "commonPrefix a b = a \<Longrightarrow> prefix a b"
  by (metis commonPrefix_prefix2)

lemma commonPrefix_eq2: "commonPrefix a b = b \<Longrightarrow> prefix b a"
  by (metis commonPrefix_prefix1)

subsection \<open>Text nodes and their paths\<close>

lemma isText_iff: "isText d p \<longleftrightarrow> (\<exists>s. nodeAt d p = Some (Text s))"
  by (auto simp: isText_def split: option.splits node.splits)

lemma textPaths_set_aux:
  "\<forall>q. q \<in> set (textPaths n) \<longleftrightarrow> (\<exists>s. nodeAt n q = Some (Text s))"
  "\<forall>q. q \<in> set (textPathsList i cs) \<longleftrightarrow>
     (\<exists>j q' s. q = (i + j) # q' \<and> j < length cs \<and> nodeAt (cs ! j) q' = Some (Text s))"
proof (induction n and i cs rule: textPaths_textPathsList.induct)
  case (1 s)
  show ?case
  proof
    fix q show "q \<in> set (textPaths (Text s)) \<longleftrightarrow> (\<exists>s'. nodeAt (Text s) q = Some (Text s'))"
      by (cases q) auto
  qed
next
  case (2 t cs)
  show ?case
  proof
    fix q show "q \<in> set (textPaths (Element t cs)) \<longleftrightarrow> (\<exists>s'. nodeAt (Element t cs) q = Some (Text s'))"
      using 2 by (cases q) auto
  qed
next
  case (3 i)
  show ?case by simp
next
  case (4 i c cs)
  show ?case
  proof
    fix q
    have "q \<in> set (textPathsList i (c # cs)) \<longleftrightarrow>
        (\<exists>q' s. q = i # q' \<and> nodeAt c q' = Some (Text s)) \<or>
        (\<exists>j q' s. q = (Suc i + j) # q' \<and> j < length cs \<and> nodeAt (cs ! j) q' = Some (Text s))"
      using 4 by auto
    also have "\<dots> \<longleftrightarrow> (\<exists>j q' s. q = (i + j) # q' \<and> j < length (c # cs) \<and>
         nodeAt ((c # cs) ! j) q' = Some (Text s))"
      (is "?L \<longleftrightarrow> ?R")
    proof
      assume ?L
      then show ?R
      proof
        assume "\<exists>q' s. q = i # q' \<and> nodeAt c q' = Some (Text s)"
        then obtain q' s where "q = (i + 0) # q'" "0 < length (c # cs)" "nodeAt ((c # cs) ! 0) q' = Some (Text s)"
          by auto
        then show ?R by blast
      next
        assume "\<exists>j q' s. q = (Suc i + j) # q' \<and> j < length cs \<and> nodeAt (cs ! j) q' = Some (Text s)"
        then obtain j q' s where "q = (i + Suc j) # q'" "Suc j < length (c # cs)"
          "nodeAt ((c # cs) ! Suc j) q' = Some (Text s)" by auto
        then show ?R by blast
      qed
    next
      assume ?R
      then obtain j q' s where j: "q = (i + j) # q'" "j < length (c # cs)"
         "nodeAt ((c # cs) ! j) q' = Some (Text s)" by blast
      show ?L
      proof (cases j)
        case 0
        then show ?thesis using j by auto
      next
        case (Suc k)
        then have "q = (Suc i + k) # q'" "k < length cs" "nodeAt (cs ! k) q' = Some (Text s)"
          using j by auto
        then show ?thesis by blast
      qed
    qed
    finally show "q \<in> set (textPathsList i (c # cs)) \<longleftrightarrow> (\<exists>j q' s. q = (i + j) # q' \<and> j < length (c # cs) \<and>
         nodeAt ((c # cs) ! j) q' = Some (Text s))" .
  qed
qed

lemma textPaths_set: "q \<in> set (textPaths d) \<longleftrightarrow> isText d q"
  using textPaths_set_aux(1)[of d] by (simp add: isText_iff)

lemma text_no_descendant:
  "isText d q \<Longrightarrow> prefix q p \<Longrightarrow> nodeAt d p \<noteq> None \<Longrightarrow> p = q"
proof (induction d q arbitrary: p rule: nodeAt.induct)
  case (1 n)
  then obtain s where "n = Text s" by (auto simp: isText_iff)
  then show ?case using 1 by (cases p) auto
next
  case (2 t cs i q)
  from 2(3) obtain p' where p: "p = i # p'" "prefix q p'" by (cases p) auto
  have i: "i < length cs" using 2(2) by (auto simp: isText_iff split: if_splits)
  then have "isText (cs ! i) q" "nodeAt (cs ! i) p' \<noteq> None"
    using 2(2,4) p by (auto simp: isText_iff)
  from 2(1)[OF i this(1) p(2) this(2)] show ?case using p by simp
next
  case (3 s i q)
  then show ?case by (simp add: isText_iff)
qed

subsection \<open>The text nodes that intersect a range\<close>

lemma lex_strip:
  "\<not> prefix x y \<Longrightarrow> \<not> prefix y x \<Longrightarrow> x @ u < y @ v \<Longrightarrow> x < y" for x :: "nat list"
proof (induction x arbitrary: y)
  case Nil
  then show ?case by simp
next
  case (Cons a x)
  then show ?case by (cases y) auto
qed

lemma nodeLength_Some_iff: "(\<exists>n. nodeLength d p = Some n) \<longleftrightarrow> nodeAt d p \<noteq> None"
  by (auto simp: nodeLength_def split: option.splits node.splits)

lemma nodeLength_text: "nodeAt d q = Some (Text s) \<Longrightarrow> nodeLength d q = Some (length s)"
  by (simp add: nodeLength_def)

lemma text_node_in_range_iff:
  assumes v: "validRange d r" and ne: "\<not> (startContainer r = endContainer r \<and> isText d (startContainer r))" and tq: "isText d q"
  shows "(strict_prefix (commonAncestorContainer r) q \<and> intersectsNode r q) \<longleftrightarrow>
         (q = startContainer r \<or> containedIn d r q \<or> q = endContainer r)"
proof -
  define sc so ec eo where "sc = startContainer r" and "so = startOffset r"
    and "ec = endContainer r" and "eo = endOffset r"
  define cp where "cp = commonPrefix sc ec"
  have S: "startKey r = sc @ [so]" and E: "endKey r = ec @ [eo]"
    by (simp_all add: startKey_def endKey_def bpKey_def sc_def so_def ec_def eo_def)
  from v obtain n m where nm: "nodeLength d sc = Some n" "nodeLength d ec = Some m"
      and so: "so \<le> n" and eo: "eo \<le> m" and SE: "sc @ [so] \<le> ec @ [eo]"
    by (auto simp: validRange_def S E sc_def[symmetric] ec_def[symmetric] so_def[symmetric]
        eo_def[symmetric] split: option.splits)
  have vs: "nodeAt d sc \<noteq> None" and ve: "nodeAt d ec \<noteq> None"
    using nm nodeLength_Some_iff by blast+
  have nsc: "\<not> strict_prefix q sc" and nec: "\<not> strict_prefix q ec"
    using text_no_descendant[OF tq _ vs] text_no_descendant[OF tq _ ve]
    by (auto simp: strict_prefix_def)
  have ne': "\<not> (sc = q \<and> ec = q)"
    using ne tq by (auto simp: sc_def ec_def)
  have qne: "q \<noteq> []"
  proof
    assume "q = []"
    then have "sc = q" "ec = q"
      using text_no_descendant[OF tq _ vs] text_no_descendant[OF tq _ ve] by auto
    then show False using ne' by simp
  qed
  define pq i where "pq = butlast q" and "i = last q"
  have q: "q = pq @ [i]" using qne by (simp add: pq_def i_def)
  obtain s where s: "nodeAt d q = Some (Text s)" using tq isText_iff by blast
  have len: "nodeLength d q = Some (length s)" using s by (rule nodeLength_text)
  have int: "intersectsNode r q \<longleftrightarrow> q < ec @ [eo] \<and> sc @ [so] < pq @ [Suc i]"
    using qne by (simp add: intersectsNode_def S E bpKey_def pq_def i_def)
  have con: "containedIn d r q \<longleftrightarrow> sc @ [so] < q @ [0] \<and> q @ [length s] < ec @ [eo]"
    by (simp add: containedIn_def len S E bpKey_def)
  have cps: "prefix cp sc" and cpe: "prefix cp ec"
    unfolding cp_def by (rule commonPrefix_prefix1, rule commonPrefix_prefix2)
  have cap: "commonAncestorContainer r = cp"
    by (simp add: commonAncestorContainer_def cp_def sc_def ec_def)
  have dir1: "strict_prefix cp q \<and> intersectsNode r q" if "q = sc"
  proof -
    have "cp \<noteq> sc"
    proof
      assume "cp = sc"
      then have "prefix sc ec" using cpe by simp
      then have "ec = sc" using text_no_descendant[OF tq _ ve] that by simp
      then show False using ne' that by simp
    qed
    then have 1: "strict_prefix cp q" using cps that by (simp add: strict_prefix_def)
    have "q < sc @ [so]" unfolding that by (rule lex_less_snoc)
    then have 2: "q < ec @ [eo]" using SE by simp
    have "(pq @ [i]) @ [so] < pq @ [Suc i]" using lex_sibling[of pq i "[so]"] by simp
    then have 3: "sc @ [so] < pq @ [Suc i]" unfolding q[symmetric] that .
    show ?thesis using 1 2 3 int by simp
  qed
  have dir2: "strict_prefix cp q \<and> intersectsNode r q" if "q = ec"
  proof -
    have "cp \<noteq> ec"
    proof
      assume "cp = ec"
      then have "prefix ec sc" using cps by simp
      then have "sc = ec" using text_no_descendant[OF tq _ vs] that by simp
      then show False using ne' that by simp
    qed
    then have 1: "strict_prefix cp q" using cpe that by (simp add: strict_prefix_def)
    have 2: "q < ec @ [eo]" unfolding that by (rule lex_less_snoc)
    have "(pq @ [i]) @ [eo] < pq @ [Suc i]" using lex_sibling[of pq i "[eo]"] by simp
    then have "ec @ [eo] < pq @ [Suc i]" unfolding q[symmetric] that .
    then have 3: "sc @ [so] < pq @ [Suc i]" using SE by simp
    show ?thesis using 1 2 3 int by simp
  qed
  have dir3: "strict_prefix cp q \<and> intersectsNode r q" if c: "containedIn d r q"
  proof -
    from c con have c1: "sc @ [so] < q @ [0]" and c2: "q @ [length s] < ec @ [eo]" by simp_all
    have "q < q @ [length s]" by (rule lex_less_snoc)
    then have 2: "q < ec @ [eo]" using c2 by simp
    have "(pq @ [i]) @ [0] < pq @ [Suc i]" using lex_sibling[of pq i "[0]"] by simp
    then have "q @ [0] < pq @ [Suc i]" unfolding q[symmetric] .
    then have 3: "sc @ [so] < pq @ [Suc i]" using c1 by simp
    have "q @ [0] \<le> q @ [length s]" by (simp add: list_le_def)
    then have le2: "q @ [0] \<le> ec @ [eo]" using c2 by simp
    have "prefix cp (sc @ [so])" "prefix cp (ec @ [eo])" using cps cpe by simp_all
    from lex_sandwich[OF this _ le2] c1 have "prefix cp (q @ [0])" by simp
    then have "cp = q @ [0] \<or> prefix cp q" by simp
    moreover have "cp \<noteq> q @ [0]"
    proof
      assume "cp = q @ [0]"
      then have "prefix (q @ [0]) sc" using cps by simp
      then obtain z where "sc = q @ 0 # z" by (auto simp: prefix_def)
      then have "strict_prefix q sc" by (simp add: strict_prefix_def)
      then show False using nsc by simp
    qed
    moreover have "cp \<noteq> q"
    proof
      assume "cp = q"
      then have "sc = q" "ec = q"
        using text_no_descendant[OF tq _ vs] text_no_descendant[OF tq _ ve] cps cpe by auto
      then show False using ne' by simp
    qed
    ultimately have 1: "strict_prefix cp q" by (auto simp: strict_prefix_def)
    show ?thesis using 1 2 3 int by simp
  qed
  have dir4: "containedIn d r q" if i: "intersectsNode r q" and n1: "q \<noteq> sc" and n2: "q \<noteq> ec"
  proof -
    from i int have i1: "q < ec @ [eo]" and i2: "sc @ [so] < pq @ [Suc i]" by simp_all
    have "\<not> strict_prefix (pq @ [i]) (sc @ [so])"
      using nsc n1 q by (auto simp: strict_prefix_def)
    from lex_below_sibling[OF i2 this] have "sc @ [so] \<le> q" using q by simp
    moreover have "q < q @ [0]" by (rule lex_less_snoc)
    ultimately have c1: "sc @ [so] < q @ [0]" by simp
    have "\<not> prefix q (ec @ [eo])"
      using nec n2 i1 by (auto simp: strict_prefix_def)
    from lex_diverge[OF i1 this] have c2: "q @ [length s] < ec @ [eo]" .
    show ?thesis using c1 c2 con by simp
  qed
  show ?thesis
    using dir1 dir2 dir3 dir4 unfolding cap sc_def[symmetric] ec_def[symmetric] by blast
qed

lemma filter_front1:
  "sorted_wrt (<) T \<Longrightarrow> a \<in> set T \<Longrightarrow> (\<forall>q \<in> set T. Q q \<longrightarrow> a < q) \<Longrightarrow>
     filter (\<lambda>q. q = a \<or> Q q) T = a # filter Q T" for T :: "nat list list"
proof (induction T)
  case Nil
  then show ?case by simp
next
  case (Cons x T)
  show ?case
  proof (cases "x = a")
    case True
    have "\<forall>q \<in> set T. a < q" using Cons.prems(1) True by simp
    then have "filter (\<lambda>q. q = a \<or> Q q) T = filter Q T"
      by (intro filter_cong) auto
    moreover have "\<not> Q a" using Cons.prems(3) True by auto
    ultimately show ?thesis using True by simp
  next
    case False
    then have a: "a \<in> set T" using Cons.prems(2) by simp
    then have "x < a" using Cons.prems(1) by simp
    then have "\<not> Q x" using Cons.prems(3) by auto
    moreover have "filter (\<lambda>q. q = a \<or> Q q) T = a # filter Q T"
      using Cons.IH[OF _ a] Cons.prems(1,3) by simp
    ultimately show ?thesis using False by simp
  qed
qed

lemma filter_back1:
  "sorted_wrt (<) T \<Longrightarrow> b \<in> set T \<Longrightarrow> (\<forall>q \<in> set T. Q q \<longrightarrow> q < b) \<Longrightarrow>
     filter (\<lambda>q. Q q \<or> q = b) T = filter Q T @ [b]" for T :: "nat list list"
proof (induction T)
  case Nil
  then show ?case by simp
next
  case (Cons x T)
  show ?case
  proof (cases "x = b")
    case True
    have gt: "\<forall>q \<in> set T. b < q" using Cons.prems(1) True by simp
    then have nq: "\<forall>q \<in> set T. \<not> Q q" using Cons.prems(3) by fastforce
    have "filter (\<lambda>q. Q q \<or> q = b) T = []" using gt nq by (auto simp: filter_empty_conv)
    moreover have "filter Q T = []" using nq by (simp add: filter_empty_conv)
    moreover have "\<not> Q b" using Cons.prems(3) True by auto
    ultimately show ?thesis using True by simp
  next
    case False
    then have b: "b \<in> set T" using Cons.prems(2) by simp
    have "filter (\<lambda>q. Q q \<or> q = b) T = filter Q T @ [b]"
      using Cons.IH[OF _ b] Cons.prems(1,3) by simp
    then show ?thesis using False by simp
  qed
qed

lemma filter_front:
  fixes T :: "nat list list"
  assumes "sorted_wrt (<) T" "set A \<subseteq> set T" "length A \<le> 1"
    "\<forall>a \<in> set A. \<forall>q \<in> set T. Q q \<longrightarrow> a < q"
  shows "filter (\<lambda>q. q \<in> set A \<or> Q q) T = A @ filter Q T"
proof (cases A)
  case Nil
  then show ?thesis by simp
next
  case (Cons a A')
  then have A: "A = [a]" using assms(3) by simp
  show ?thesis using filter_front1[of T a Q] assms(1,2,4) unfolding A by simp
qed

lemma filter_back:
  fixes T :: "nat list list"
  assumes "sorted_wrt (<) T" "set B \<subseteq> set T" "length B \<le> 1"
    "\<forall>b \<in> set B. \<forall>q \<in> set T. Q q \<longrightarrow> q < b"
  shows "filter (\<lambda>q. Q q \<or> q \<in> set B) T = filter Q T @ B"
proof (cases B)
  case Nil
  then show ?thesis by simp
next
  case (Cons b B')
  then have B: "B = [b]" using assms(3) by simp
  show ?thesis using filter_back1[of T b Q] assms(1,2,4) unfolding B by simp
qed

lemma text_nodes_of_range:
  assumes v: "validRange d r" and ne: "\<not> (startContainer r = endContainer r \<and> isText d (startContainer r))"
    and od: "hasOwnerDocument (commonAncestorContainer r)"
  shows "getTextNodesInRange d r =
           (if isText d (startContainer r) then [startContainer r] else [])
           @ filter (containedIn d r) (textPaths d)
           @ (if isText d (endContainer r) then [endContainer r] else [])"
proof -
  define sc so ec eo where "sc = startContainer r" and "so = startOffset r"
    and "ec = endContainer r" and "eo = endOffset r"
  define T where "T = textPaths d"
  define A where "A = (if isText d sc then [sc] else [])"
  define B where "B = (if isText d ec then [ec] else [])"
  have S: "startKey r = sc @ [so]" and E: "endKey r = ec @ [eo]"
    by (simp_all add: startKey_def endKey_def bpKey_def sc_def so_def ec_def eo_def)
  from v obtain n m where nm: "nodeLength d sc = Some n" "nodeLength d ec = Some m"
      and so: "so \<le> n" and eo: "eo \<le> m" and SE: "sc @ [so] \<le> ec @ [eo]"
    by (auto simp: validRange_def S E sc_def[symmetric] ec_def[symmetric] so_def[symmetric]
        eo_def[symmetric] split: option.splits)
  have vs: "nodeAt d sc \<noteq> None" and ve: "nodeAt d ec \<noteq> None"
    using nm nodeLength_Some_iff by blast+
  have sorted: "sorted_wrt (<) T" unfolding T_def by (rule textPaths_sorted)
  have Tset: "q \<in> set T \<longleftrightarrow> isText d q" for q unfolding T_def by (rule textPaths_set)
  have valid: "nodeAt d q \<noteq> None" if "isText d q" for q using that by (auto simp: isText_iff)
  have apart: "\<not> prefix x y" if "isText d x" "isText d y" "x \<noteq> y" for x y
    using text_no_descendant[OF that(1) _ valid[OF that(2)]] that(3) by auto
  have ncs: "\<not> containedIn d r sc"
    by (simp add: containedIn_def S bpKey_def split: option.splits)
  have nce: "\<not> containedIn d r ec"
    using eo by (simp add: containedIn_def E bpKey_def nm)
  have con: "sc @ [so] < q @ [0] \<and> (\<exists>l. q @ [l] < ec @ [eo])" if "containedIn d r q" for q
    using that by (auto simp: containedIn_def S E bpKey_def split: option.splits)
  have o1: "sc < q" if "isText d sc" "isText d q" "containedIn d r q" for q
  proof -
    have "q \<noteq> sc" using that(3) ncs by auto
    then have "\<not> prefix sc q" "\<not> prefix q sc" using apart that(1,2) by auto
    then show ?thesis using lex_strip con[OF that(3)] by blast
  qed
  have o3: "q < ec" if "isText d ec" "isText d q" "containedIn d r q" for q
  proof -
    have "q \<noteq> ec" using that(3) nce by auto
    then have "\<not> prefix ec q" "\<not> prefix q ec" using apart that(1,2) by auto
    then show ?thesis using lex_strip con[OF that(3)] by blast
  qed
  have o2: "sc < ec" if "isText d sc" "isText d ec"
  proof -
    have "sc \<noteq> ec" using ne that(1) sc_def ec_def by auto
    then have np: "\<not> prefix sc ec" "\<not> prefix ec sc" using apart that by auto
    have "sc @ [so] \<noteq> ec @ [eo]" using \<open>sc \<noteq> ec\<close> by simp
    then have "sc @ [so] < ec @ [eo]" using SE by (simp only: order_le_less) blast
    then show ?thesis using lex_strip np by blast
  qed
  have AT: "set A \<subseteq> set T" and BT: "set B \<subseteq> set T"
    by (auto simp: A_def B_def Tset)
  have lenA: "length A \<le> 1" and lenB: "length B \<le> 1" by (simp_all add: A_def B_def)
  have pt: "(strict_prefix (commonAncestorContainer r) q \<and> intersectsNode r q) \<longleftrightarrow>
        (q \<in> set A \<or> (containedIn d r q \<or> q \<in> set B))" if "q \<in> set T" for q
  proof -
    have tq: "isText d q" using that Tset by simp
    have "q \<in> set A \<longleftrightarrow> q = sc" "q \<in> set B \<longleftrightarrow> q = ec" using tq by (auto simp: A_def B_def)
    then show ?thesis
      using text_node_in_range_iff[OF v ne tq] unfolding sc_def ec_def by simp
  qed
  have "getTextNodesInRange d r =
      filter (\<lambda>q. strict_prefix (commonAncestorContainer r) q \<and> intersectsNode r q) T"
    using od by (simp add: getTextNodesInRange_def walkerTextNodes_def T_def conj_commute)
  also have "\<dots> = filter (\<lambda>q. q \<in> set A \<or> (containedIn d r q \<or> q \<in> set B)) T"
    by (rule filter_cong[OF refl]) (use pt in blast)
  also have "\<dots> = A @ filter (\<lambda>q. containedIn d r q \<or> q \<in> set B) T"
  proof (rule filter_front[OF sorted AT lenA])
    show "\<forall>a\<in>set A. \<forall>q\<in>set T. containedIn d r q \<or> q \<in> set B \<longrightarrow> a < q"
      using o1 o2 by (auto simp: A_def B_def Tset split: if_splits)
  qed
  also have "filter (\<lambda>q. containedIn d r q \<or> q \<in> set B) T = filter (containedIn d r) T @ B"
  proof (rule filter_back[OF sorted BT lenB])
    show "\<forall>b\<in>set B. \<forall>q\<in>set T. containedIn d r q \<longrightarrow> q < b"
      using o3 by (auto simp: B_def Tset split: if_splits)
  qed
  finally show ?thesis unfolding A_def B_def T_def sc_def ec_def .
qed

lemma toString_clipped_text_nodes:
  assumes v: "validRange d r" and ne: "\<not> (startContainer r = endContainer r \<and> isText d (startContainer r))"
    and od: "hasOwnerDocument (commonAncestorContainer r)"
  shows "toString d r = concat (map (clipText d r) (getTextNodesInRange d r))"
proof -
  from v obtain m where m: "nodeLength d (endContainer r) = Some m" "endOffset r \<le> m"
    by (auto simp: validRange_def split: option.splits)
  have ncs: "\<not> containedIn d r (startContainer r)"
    by (simp add: containedIn_def startKey_def bpKey_def split: option.splits)
  have nce: "\<not> containedIn d r (endContainer r)"
    using m by (simp add: containedIn_def endKey_def bpKey_def)
  have mid: "map (clipText d r) (filter (containedIn d r) (textPaths d))
      = map (textContent d) (filter (containedIn d r) (textPaths d))"
    by (rule map_cong[OF refl]) (use ncs nce in \<open>auto simp: clipText_def\<close>)
  have ts: "toString d r =
      (if isText d (startContainer r)
       then substringFrom (textContent d (startContainer r)) (startOffset r) else [])
      @ concat (map (textContent d) (filter (containedIn d r) (textPaths d)))
      @ (if isText d (endContainer r)
         then substringTo (textContent d (endContainer r)) (endOffset r) else [])"
    unfolding toString_def using ne by (rule if_not_P)
  show ?thesis
    unfolding text_nodes_of_range[OF assms] ts
    using ne by (auto simp: mid clipText_def)
qed

subsection \<open>White space and the text of a group\<close>

lemma strip_append [simp]: "stripWhiteSpace (a @ b) = stripWhiteSpace a @ stripWhiteSpace b"
  by (simp add: stripWhiteSpace_def)

lemma strip_Nil [simp]: "stripWhiteSpace [] = []"
  by (simp add: stripWhiteSpace_def)

lemma strip_dropWhile: "stripWhiteSpace (dropWhile isWhiteSpace s) = stripWhiteSpace s"
  by (induction s) (auto simp: stripWhiteSpace_def)

lemma strip_rev: "stripWhiteSpace (rev s) = rev (stripWhiteSpace s)"
  by (simp add: stripWhiteSpace_def rev_filter)

lemma strip_trim: "stripWhiteSpace (trim s) = stripWhiteSpace s"
  by (simp add: trim_def strip_rev strip_dropWhile)

lemma trim_empty_strip: "trim s = [] \<Longrightarrow> stripWhiteSpace s = []"
  using strip_trim[of s] by simp

lemma strip_concat: "stripWhiteSpace (concat xs) = concat (map stripWhiteSpace xs)"
  by (induction xs) auto

lemma strip_empty_drop: "stripWhiteSpace s = [] \<Longrightarrow> stripWhiteSpace (drop n s) = []"
  by (auto simp: stripWhiteSpace_def filter_empty_conv dest: in_set_dropD)

lemma strip_empty_take: "stripWhiteSpace s = [] \<Longrightarrow> stripWhiteSpace (take n s) = []"
  by (auto simp: stripWhiteSpace_def filter_empty_conv dest: in_set_takeD)

lemma strip_empty_clip:
  "stripWhiteSpace (textContent d t) = [] \<Longrightarrow> stripWhiteSpace (clipText d r t) = []"
  unfolding clipText_def substringFrom_def substringTo_def
  by (auto intro: strip_empty_drop strip_empty_take)

lemma extractStep_elementText:
  "elementText (extractStep d r a t) = elementText a @ clipText d r t"
  by (simp add: extractStep_def clipText_def Let_def)

lemma extract_elementText:
  "elementText (foldl (extractStep d r) a ns) = elementText a @ concat (map (clipText d r) ns)"
  by (induction ns arbitrary: a) (simp_all add: extractStep_elementText)

lemma extractGroup_elementText:
  "elementText (extractGroup d r ns) = concat (map (clipText d r) ns)"
  by (simp add: extractGroup_def extract_elementText extractionInit_def)

subsection \<open>The groups as filters of the text nodes\<close>

lemma groupPush_new: "b \<notin> fst ` set m \<Longrightarrow> groupPush m b t = m @ [(b, [t])]"
  by (induction m b t rule: groupPush.induct) auto

lemma groupPush_map:
  "distinct (map fst m) \<Longrightarrow> b \<in> fst ` set m \<Longrightarrow>
     groupPush m b t = map (\<lambda>(k, ns). if k = b then (k, ns @ [t]) else (k, ns)) m"
proof (induction m b t rule: groupPush.induct)
  case (1 b t)
  then show ?case by simp
next
  case (2 k ts m b t)
  show ?case
  proof (cases "k = b")
    case True
    then have "b \<notin> fst ` set m" using 2(2) by auto
    then have "\<And>x. x \<in> set m \<Longrightarrow> fst x \<noteq> b" by force
    then have "map (\<lambda>(k, ns). if k = b then (k, ns @ [t]) else (k, ns)) m = m"
      by (intro map_idI) (auto simp: case_prod_beta)
    then show ?thesis using True by simp
  next
    case False
    then show ?thesis using 2 by auto
  qed
qed

lemma map_filter_snoc:
  "List.map_filter f (xs @ [x]) = List.map_filter f xs @ (case f x of None \<Rightarrow> [] | Some y \<Rightarrow> [y])"
  by (simp add: List.map_filter_def split: option.splits)

lemma set_map_filter: "set (List.map_filter f xs) = {y. \<exists>x \<in> set xs. f x = Some y}"
  by (auto simp: List.map_filter_def image_iff) (metis option.sel)

lemma groups_keys_set:
  "fst ` set (blockElementToTextNodes d ts)
     = {k. \<exists>t \<in> set ts. findContainingBlockElement d t = Some k}"
  unfolding blockElementToTextNodes_def
proof (induction ts rule: rev_induct)
  case Nil
  show ?case by simp
next
  case (snoc t ts)
  have "fst ` set (groupStep d m t) = fst ` set m \<union>
      (case findContainingBlockElement d t of None \<Rightarrow> {} | Some b \<Rightarrow> {b})" for m
    using groupPush_keys[of m _ t]
    by (auto simp: groupStep_def split: option.splits if_splits simp flip: set_map)
  then show ?case using snoc by (auto split: option.splits)
qed

lemma groups_filter:
  "(k, ns) \<in> set (blockElementToTextNodes d ts) \<Longrightarrow>
     ns = filter (\<lambda>t. findContainingBlockElement d t = Some k) ts"
proof (induction ts arbitrary: k ns rule: rev_induct)
  case Nil
  then show ?case by (simp add: blockElementToTextNodes_def)
next
  case (snoc t ts)
  define m where "m = blockElementToTextNodes d ts"
  have step: "blockElementToTextNodes d (ts @ [t]) = groupStep d m t"
    by (simp add: blockElementToTextNodes_def m_def)
  have dist: "distinct (map fst m)" unfolding m_def by (rule groups_keys_distinct)
  have ih: "(k, ns) \<in> set m \<Longrightarrow> ns = filter (\<lambda>t. findContainingBlockElement d t = Some k) ts"
    for k ns using snoc.IH unfolding m_def by blast
  show ?case
  proof (cases "findContainingBlockElement d t")
    case None
    then show ?thesis using snoc.prems ih step by (simp add: groupStep_def)
  next
    case (Some b)
    then have in': "(k, ns) \<in> set (groupPush m b t)" using snoc.prems step by (simp add: groupStep_def)
    show ?thesis
    proof (cases "b \<in> fst ` set m")
      case True
      from in' obtain k0 ns0 where old: "(k0, ns0) \<in> set m"
        and new: "(k, ns) = (if k0 = b then (k0, ns0 @ [t]) else (k0, ns0))"
        unfolding groupPush_map[OF dist True] by auto
      show ?thesis using ih[OF old] new Some by (auto split: if_splits)
    next
      case False
      then have "\<not> (\<exists>u \<in> set ts. findContainingBlockElement d u = Some b)"
        using groups_keys_set[of d ts] unfolding m_def by blast
      then have e: "filter (\<lambda>t. findContainingBlockElement d t = Some b) ts = []"
        by (auto simp: filter_empty_conv)
      from in' have "(k, ns) \<in> set m \<or> (k, ns) = (b, [t])"
        unfolding groupPush_new[OF False] by auto
      then show ?thesis
      proof
        assume o: "(k, ns) \<in> set m"
        then have "k \<noteq> b" using False by force
        then show ?thesis using ih[OF o] Some by simp
      next
        assume "(k, ns) = (b, [t])"
        then show ?thesis using e Some by simp
      qed
    qed
  qed
qed

lemma groups_subset:
  "(k, ns) \<in> set (blockElementToTextNodes d ts) \<Longrightarrow> set ns \<subseteq> set ts"
  using groups_filter[of k ns d ts] by auto

lemma groups_heads:
  assumes "sorted_wrt (<) ts"
  shows "(\<forall>g \<in> set (blockElementToTextNodes d ts). snd g \<noteq> []) \<and>
     sorted_wrt (\<lambda>g h. \<forall>y \<in> set (snd h). \<exists>x \<in> set (snd g). x < y)
       (blockElementToTextNodes d ts)"
  using assms
proof (induction ts rule: rev_induct)
  case Nil
  show ?case by (simp add: blockElementToTextNodes_def)
next
  case (snoc t ts)
  define m where "m = blockElementToTextNodes d ts"
  define P where "P = (\<lambda>(g :: path \<times> path list) (h :: path \<times> path list). \<forall>y \<in> set (snd h). \<exists>x \<in> set (snd g). x < y)"
  have step: "blockElementToTextNodes d (ts @ [t]) = groupStep d m t"
    by (simp add: blockElementToTextNodes_def m_def)
  have st: "sorted_wrt (<) ts" and lt: "\<forall>u \<in> set ts. u < t"
    using snoc.prems by (simp_all add: sorted_wrt_append)
  have ne: "\<forall>g \<in> set m. snd g \<noteq> []" and so: "sorted_wrt P m"
    using snoc.IH[OF st] unfolding m_def P_def by blast+
  have sub: "set (snd g) \<subseteq> set ts" if "g \<in> set m" for g
    using that groups_subset[of "fst g" "snd g" d ts] unfolding m_def by simp
  have below: "\<exists>x \<in> set (snd g). x < t" if gm: "g \<in> set m" for g
  proof -
    have "snd g \<noteq> []" using ne gm by blast
    then obtain x where "x \<in> set (snd g)" by (cases "snd g") auto
    then show ?thesis using sub[OF gm] lt by blast
  qed
  have goal: "(\<forall>g \<in> set (groupStep d m t). snd g \<noteq> []) \<and> sorted_wrt P (groupStep d m t)"
  proof (cases "findContainingBlockElement d t")
    case None
    then show ?thesis using ne so by (simp add: groupStep_def)
  next
    case (Some b)
    have gs: "groupStep d m t = groupPush m b t" using Some by (simp add: groupStep_def)
    have dist: "distinct (map fst m)" unfolding m_def by (rule groups_keys_distinct)
    show ?thesis
    proof (cases "b \<in> fst ` set m")
      case False
      have gp: "groupPush m b t = m @ [(b, [t])]" by (rule groupPush_new[OF False])
      have "sorted_wrt P (m @ [(b, [t])])"
        using so below by (simp add: sorted_wrt_append P_def)
      then show ?thesis unfolding gs gp using ne by simp
    next
      case True
      define f where "f = (\<lambda>(k, ns). if k = b then (k, ns @ [t]) else (k :: path, ns :: path list))"
      have gp: "groupPush m b t = map f m"
        unfolding f_def by (rule groupPush_map[OF dist True])
      have sf: "set (snd (f g)) = set (snd g) \<or> set (snd (f g)) = insert t (set (snd g))" for g
        by (cases g) (auto simp: f_def)
      have nf: "snd (f g) \<noteq> []" if "g \<in> set m" for g
        using ne that by (cases g) (auto simp: f_def)
      have "P (f g) (f h)" if "g \<in> set m" "h \<in> set m" "P g h" for g h
        unfolding P_def
      proof
        fix y assume y: "y \<in> set (snd (f h))"
        have gsub: "set (snd g) \<subseteq> set (snd (f g))" using sf[of g] by auto
        show "\<exists>x \<in> set (snd (f g)). x < y"
        proof (cases "y \<in> set (snd h)")
          case True
          then show ?thesis using that(3) gsub unfolding P_def by blast
        next
          case False
          then have "y = t" using y sf[of h] by auto
          then show ?thesis using below[OF that(1)] gsub by blast
        qed
      qed
      then have "sorted_wrt (\<lambda>g h. P (f g) (f h)) m"
        using so sorted_wrt_mono_rel[of m P "\<lambda>g h. P (f g) (f h)"] by blast
      then have "sorted_wrt P (map f m)" by (simp add: sorted_wrt_map)
      then show ?thesis unfolding gs gp using nf by auto
    qed
  qed
  show ?case unfolding step using goal unfolding P_def .
qed


lemma groups_strip:
  assumes "sorted_wrt (<) ts"
    and "\<forall>t \<in> set ts. findContainingBlockElement d t = None \<longrightarrow> \<not> nonWhite d r t"
    and "\<not> blockResumed d r ts"
  shows "concat (map (\<lambda>g. concat (map (\<lambda>t. stripWhiteSpace (clipText d r t)) (snd g)))
             (blockElementToTextNodes d ts))
       = concat (map (\<lambda>t. stripWhiteSpace (clipText d r t)) ts)"
  using assms
proof (induction ts rule: rev_induct)
  case Nil
  show ?case by (simp add: blockElementToTextNodes_def)
next
  case (snoc t ts)
  define m where "m = blockElementToTextNodes d ts"
  define sc where "sc = (\<lambda>t. stripWhiteSpace (clipText d r t))"
  define T where "T = (\<lambda>gs :: groups. concat (map (\<lambda>g. concat (map sc (snd g))) gs))"
  have step: "blockElementToTextNodes d (ts @ [t]) = groupStep d m t"
    by (simp add: blockElementToTextNodes_def m_def)
  have st: "sorted_wrt (<) ts" and lt: "\<forall>u \<in> set ts. u < t"
    using snoc.prems(1) by (simp_all add: sorted_wrt_append)
  have ws: "\<forall>t \<in> set ts. findContainingBlockElement d t = None \<longrightarrow> \<not> nonWhite d r t"
    using snoc.prems(2) by simp
  have nr: "\<not> blockResumed d r ts"
    using snoc.prems(3) unfolding blockResumed_def by auto
  have ih: "T m = concat (map sc ts)"
    using snoc.IH[OF st ws nr] unfolding T_def sc_def m_def .
  have goal: "T (groupStep d m t) = concat (map sc ts) @ sc t"
  proof (cases "findContainingBlockElement d t")
    case None
    then have "sc t = []" using snoc.prems(2) by (simp add: nonWhite_def sc_def)
    then show ?thesis using None ih by (simp add: groupStep_def)
  next
    case (Some b)
    have gs: "groupStep d m t = groupPush m b t" using Some by (simp add: groupStep_def)
    have dist: "distinct (map fst m)" unfolding m_def by (rule groups_keys_distinct)
    show ?thesis
    proof (cases "b \<in> fst ` set m")
      case False
      have gp: "groupPush m b t = m @ [(b, [t])]" by (rule groupPush_new[OF False])
      show ?thesis unfolding gs gp using ih by (simp add: T_def)
    next
      case True
      then obtain ns where "(b, ns) \<in> set m" by auto
      then obtain m1 m2 where m: "m = m1 @ (b, ns) # m2" by (auto dest: split_list)
      have b1: "b \<notin> fst ` set m1" and b2: "b \<notin> fst ` set m2"
        using dist unfolding m by auto
      have gp: "groupPush m b t = m1 @ (b, ns @ [t]) # m2"
      proof -
        have "groupPush (m1 @ g) b t = m1 @ groupPush g b t" for g
          using b1 by (induction m1) auto
        then show ?thesis unfolding m by simp
      qed
      have Tm: "T m = T m1 @ concat (map sc ns) @ T m2" unfolding m T_def by simp
      have Tn: "T (groupPush m b t) = T m1 @ concat (map sc ns) @ sc t @ T m2"
        unfolding gp T_def by simp
      show ?thesis
      proof (cases "sc t = []")
        case True
        then show ?thesis unfolding gs Tn using Tm ih by simp
      next
        case False
        then have nt: "nonWhite d r t" by (simp add: nonWhite_def sc_def)
        have so: "sorted_wrt (\<lambda>g h. \<forall>y \<in> set (snd h). \<exists>x \<in> set (snd g). x < y) m"
          using groups_heads[OF st, of d] unfolding m_def by blast
        have "sc y = []" if h: "h \<in> set m2" and y: "y \<in> set (snd h)" for h y
        proof (rule ccontr)
          assume "sc y \<noteq> []"
          then have ny: "nonWhite d r y" by (simp add: nonWhite_def sc_def)
          have "\<forall>h \<in> set m2. \<forall>y \<in> set (snd h). \<exists>x \<in> set ns. x < y"
            using so unfolding m by (simp add: sorted_wrt_append)
          then obtain x where x: "x \<in> set ns" and xy: "x < y"
            using h y by blast
          have hm: "(fst h, snd h) \<in> set m" using h unfolding m by simp
          have bm: "(b, ns) \<in> set m" unfolding m by simp
          have kx: "findContainingBlockElement d x = Some b"
            using groups_member[of d ts] bm x unfolding m_def by blast
          have ky: "findContainingBlockElement d y = Some (fst h)"
            using groups_member[of d ts] hm y unfolding m_def by blast
          have hb: "fst h \<noteq> b" using b2 h by force
          have xin: "x \<in> set ts" using groups_subset[of b ns d ts] bm x unfolding m_def by blast
          have yin: "y \<in> set ts"
            using groups_subset[of "fst h" "snd h" d ts] hm y unfolding m_def by blast
          have yt: "y < t" using lt yin by blast
          have "blockResumed d r (ts @ [t])"
            unfolding blockResumed_def
            apply (rule bexI[of _ x])
             apply (rule bexI[of _ y])
              apply (rule bexI[of _ t])
            using xy yt kx ky Some hb ny nt xin yin by simp_all
          then show False using snoc.prems(3) by blast
        qed
        then have "T m2 = []" unfolding T_def by simp
        then show ?thesis unfolding gs Tn using Tm ih by simp
      qed
    qed
  qed
  show ?case unfolding step using goal unfolding T_def sc_def by simp
qed

subsection \<open>No group of a valid range is skipped by an exception\<close>

lemma extractGroup_snoc:
  "extractGroup d r (ns @ [t]) = extractStep d r (extractGroup d r ns) t"
  by (simp add: extractGroup_def)

lemma extractGroup_Nil: "extractGroup d r [] = extractionInit"
  by (simp add: extractGroup_def)

lemma extractGroup_first_last:
  "firstTextNode (extractGroup d r ns) = (if ns = [] then None else Some (hd ns)) \<and>
   lastTextNode (extractGroup d r ns) = (if ns = [] then None else Some (last ns))"
proof (induction ns rule: rev_induct)
  case Nil
  show ?case by (simp add: extractGroup_Nil extractionInit_def)
next
  case (snoc t ns)
  have e: "extractGroup d r (ns @ [t]) = extractStep d r (extractGroup d r ns) t"
    by (rule extractGroup_snoc)
  show ?case unfolding e using snoc by (auto simp: extractStep_def Let_def)
qed

lemma extractGroup_firstTextOffset:
  "firstTextOffset (extractGroup d r ns) = 0 \<or>
   (firstTextOffset (extractGroup d r ns) = startOffset r \<and> startContainer r \<in> set ns)"
proof (induction ns rule: rev_induct)
  case Nil
  show ?case by (simp add: extractGroup_Nil extractionInit_def)
next
  case (snoc t ns)
  then show ?case
    by (auto simp: extractGroup_snoc extractStep_def Let_def)
qed

lemma extractGroup_lastTextOffset:
  "ns \<noteq> [] \<Longrightarrow> last ns \<noteq> startContainer r \<Longrightarrow>
     lastTextOffset (extractGroup d r ns) =
       (if last ns = endContainer r then endOffset r else length (textContent d (last ns)))"
proof (induction ns rule: rev_induct)
  case Nil
  then show ?case by simp
next
  case (snoc t ns)
  then show ?case by (simp add: extractGroup_snoc extractStep_def Let_def)
qed

lemma extractGroup_lastTextOffset_start:
  "set ns \<subseteq> {startContainer r} \<Longrightarrow> lastTextOffset (extractGroup d r ns) = 0"
proof (induction ns rule: rev_induct)
  case Nil
  show ?case by (simp add: extractGroup_Nil extractionInit_def)
next
  case (snoc t ns)
  then show ?case by (simp add: extractGroup_snoc extractStep_def Let_def)
qed

lemma setStart_Some: "nodeLength d p = Some n \<Longrightarrow> k \<le> n \<Longrightarrow> \<exists>pr. setStart d r0 p k = Some pr"
  by (simp add: setStart_def)

lemma setEnd_Some: "nodeLength d p = Some n \<Longrightarrow> k \<le> n \<Longrightarrow> \<exists>pr. setEnd d r0 p k = Some pr"
  by (simp add: setEnd_def)

lemma nodeLength_isText: "isText d t \<Longrightarrow> nodeLength d t = Some (length (textContent d t))"
  by (auto simp: isText_iff nodeLength_def textContent_def)

lemma getTextNodesInRange_isText: "t \<in> set (getTextNodesInRange d r) \<Longrightarrow> isText d t"
  by (auto simp: getTextNodesInRange_def walkerTextNodes_def textPaths_set split: if_splits)

lemma paragraphOfGroup_text:
  "paragraphOfGroup lib d r g = Some p \<Longrightarrow> text p = trim (elementText (extractGroup d r (snd g)))"
  by (auto simp: paragraphOfGroup_def Let_def split: option.splits if_splits)

lemma paragraphOfGroup_defined:
  assumes v: "validRange d r" and ne: "\<not> (startContainer r = endContainer r \<and> isText d (startContainer r))"
    and od: "hasOwnerDocument (commonAncestorContainer r)"
    and g: "(b, ns) \<in> set (blockElementToTextNodes d (getTextNodesInRange d r))"
    and lib: "\<forall>rg. cfiFromRange lib rg \<noteq> None"
    and tr: "trim (elementText (extractGroup d r ns)) \<noteq> []"
  shows "paragraphOfGroup lib d r (b, ns) \<noteq> None"
proof -
  define ts where "ts = getTextNodesInRange d r"
  define Q where "Q = (\<lambda>t. findContainingBlockElement d t = Some b)"
  define a where "a = extractGroup d r ns"
  have ns: "ns = filter Q ts" using groups_filter[OF g] by (simp add: Q_def ts_def)
  have "b \<in> fst ` set (blockElementToTextNodes d ts)" using g ts_def by force
  then have nne: "ns \<noteq> []"
    unfolding groups_keys_set ns by (auto simp: filter_empty_conv Q_def)
  have sorted: "sorted_wrt (<) ns" unfolding ns ts_def
    by (intro sorted_wrt_filter getTextNodesInRange_sorted)
  then have dist: "distinct ns" using strict_sorted_iff by blast
  have istxt: "isText d t" if "t \<in> set ns" for t
    using that getTextNodesInRange_isText unfolding ns ts_def by auto
  from v obtain n m where nm: "nodeLength d (startContainer r) = Some n"
      "nodeLength d (endContainer r) = Some m"
      and so: "startOffset r \<le> n" and eo: "endOffset r \<le> m"
    by (auto simp: validRange_def split: option.splits)
  have fl: "firstTextNode a = Some (hd ns)" "lastTextNode a = Some (last ns)"
    using extractGroup_first_last[of d r ns] nne by (simp_all add: a_def)
  have hd_sc: "hd ns = startContainer r" if "startContainer r \<in> set ns"
  proof -
    have "startContainer r \<in> set ts" "Q (startContainer r)" using that ns by auto
    then have "isText d (startContainer r)" using getTextNodesInRange_isText ts_def by blast
    then obtain rest where "ts = startContainer r # rest"
      unfolding ts_def text_nodes_of_range[OF v ne od] by simp
    then show ?thesis using \<open>Q (startContainer r)\<close> ns by simp
  qed
  have first_ok: "\<exists>k. nodeLength d (hd ns) = Some k \<and> firstTextOffset a \<le> k"
  proof -
    have h: "isText d (hd ns)" using istxt nne by simp
    from extractGroup_firstTextOffset[of d r ns]
    show ?thesis
    proof
      assume "firstTextOffset (extractGroup d r ns) = 0"
      then show ?thesis using nodeLength_isText[OF h] by (simp add: a_def)
    next
      assume "firstTextOffset (extractGroup d r ns) = startOffset r \<and> startContainer r \<in> set ns"
      then show ?thesis using hd_sc nm(1) so by (simp add: a_def)
    qed
  qed
  have last_ok: "\<exists>k. nodeLength d (last ns) = Some k \<and> lastTextOffset a \<le> k"
  proof (cases "last ns = startContainer r")
    case True
    then have "startContainer r \<in> set ns" using nne last_in_set by metis
    then have "hd ns = last ns" using hd_sc True by simp
    then have "ns = [startContainer r]" using dist nne True
      by (cases ns) (auto split: if_splits)
    then have "lastTextOffset a = 0"
      using extractGroup_lastTextOffset_start[of ns r d] by (simp add: a_def)
    then show ?thesis using nm(1) True by simp
  next
    case False
    have l: "isText d (last ns)" using istxt nne by simp
    show ?thesis
      using extractGroup_lastTextOffset[OF nne False, of d] nodeLength_isText[OF l] nm(2) eo
      by (auto simp: a_def)
  qed
  from first_ok obtain pr where pr: "setStart d createRange (hd ns) (firstTextOffset a) = Some pr"
    using setStart_Some by blast
  from last_ok obtain pr' where pr': "setEnd d pr (last ns) (lastTextOffset a) = Some pr'"
    using setEnd_Some by blast
  from lib obtain c where c: "cfiFromRange lib pr' = Some c" by (meson option.exhaust)
  show ?thesis
    using fl pr pr' c tr unfolding paragraphOfGroup_def a_def[symmetric]
    by (simp add: Let_def a_def)
qed

lemma setStart_valid:
  "validRange d r0 \<Longrightarrow> setStart d r0 p k = Some r1 \<Longrightarrow> validRange d r1"
  by (auto simp: setStart_def validRange_def startKey_def endKey_def
      split: option.splits if_splits)

lemma setEnd_valid:
  "validRange d r0 \<Longrightarrow> setEnd d r0 p k = Some r1 \<Longrightarrow> validRange d r1"
  by (auto simp: setEnd_def validRange_def startKey_def endKey_def
      split: option.splits if_splits)

lemma createRange_valid: "validRange d createRange"
  by (auto simp: validRange_def createRange_def nodeLength_def startKey_def endKey_def
      split: node.splits)

lemma pageRange_valid:
  assumes "pageRange lib d s e = Some r"
  shows "validRange d r"
proof -
  from assms obtain sr er :: range and r' where
    1: "setStart d createRange (startContainer sr) (startOffset sr) = Some r'" and
    2: "setEnd d r' (endContainer er) (endOffset er) = Some r"
    by (auto simp: pageRange_def split: if_splits outcome.splits option.splits)
  from setEnd_valid[OF setStart_valid[OF createRange_valid 1] 2] show ?thesis .
qed

subsection \<open>Claim C1\<close>

text \<open>
  C1 at a concrete range: the range over the two \<^verbatim>\<open>span\<close> elements of \<open>inlineDocument\<close>
  has the text \<^verbatim>\<open>ABCDEFGHIJ\<close>, both text nodes intersect it, no group is formed, and the
  result is the empty list.
\<close>

theorem no_fallback_unit:
  "toString inlineDocument
     \<lparr>startContainer = [0, 0, 0, 0], startOffset = 0, endContainer = [0, 0, 1, 0], endOffset = 5\<rparr>
     = ''ABCDEFGHIJ''
   \<and> getTextNodesInRange inlineDocument
     \<lparr>startContainer = [0, 0, 0, 0], startOffset = 0, endContainer = [0, 0, 1, 0], endOffset = 5\<rparr>
     = [[0, 0, 0, 0], [0, 0, 1, 0]]
   \<and> blockElementToTextNodes inlineDocument [[0, 0, 0, 0], [0, 0, 1, 0]] = []
   \<and> getParagraphsFromRange (sampleLib sampleTable) inlineDocument
     \<lparr>startContainer = [0, 0, 0, 0], startOffset = 0, endContainer = [0, 0, 1, 0], endOffset = 5\<rparr>
     = []
   \<and> getCurrentViewParagraphs (sampleLib sampleTable)
       (sampleRendition inlineDocument ''epubcfi(/0/0/0/0:0)'' ''epubcfi(/0/0/1/0:5)'')
       \<lparr>minLength = Some 0\<rparr> = Some []"
  by code_simp

subsection \<open>Claim C2\<close>

lemma getCurrentViewParagraphs_ignores_options:
  "getCurrentViewParagraphs lib rend opts = getCurrentViewParagraphs lib rend opts'"
  by (simp add: getCurrentViewParagraphs_def)

text \<open>
  C2 at a concrete page: called with \<^verbatim>\<open>minLength\<close> 50, \<^verbatim>\<open>getCurrentViewParagraphs\<close>
  returns two units whose texts have 10 and 4 code units.
\<close>

theorem minLength_not_applied:
  "getCurrentViewParagraphs (sampleLib sampleTable)
     (sampleRendition sampleDocument ''epubcfi(/0/0/0/0:1)'' ''epubcfi(/0/0/1/0:4)'')
     \<lparr>minLength = Some 50\<rparr>
   = Some [\<lparr>text = ''lpha text.'', cfiRange = ''epubcfi(/0/0/0/0:0,/0/0/0/0:0)''\<rparr>,
           \<lparr>text = ''Beta'', cfiRange = ''epubcfi(/0/0/1/0:0,/0/0/1/0:4)''\<rparr>]"
  by code_simp

subsection \<open>Claim C3\<close>

text \<open>
  C3 at a concrete page: when the start location lies after the end location, the page
  range collapses onto the end location and the result is the empty list; with the two
  locations in order the same page gives two units.
\<close>

theorem reversed_locations_collapse:
  "pageRange (sampleLib sampleTable) sampleDocument ''epubcfi(/0/0/1/0:4)'' ''epubcfi(/0/0/0/0:1)''
     = Some \<lparr>startContainer = [0, 0, 0, 0], startOffset = 1,
             endContainer = [0, 0, 0, 0], endOffset = 1\<rparr>
   \<and> getCurrentViewParagraphs (sampleLib sampleTable)
       (sampleRendition sampleDocument ''epubcfi(/0/0/1/0:4)'' ''epubcfi(/0/0/0/0:1)'')
       \<lparr>minLength = Some 0\<rparr> = Some []
   \<and> pageRange (sampleLib sampleTable) sampleDocument ''epubcfi(/0/0/0/0:1)'' ''epubcfi(/0/0/1/0:4)''
     = Some \<lparr>startContainer = [0, 0, 0, 0], startOffset = 1,
             endContainer = [0, 0, 1, 0], endOffset = 4\<rparr>
   \<and> getCurrentViewParagraphs (sampleLib sampleTable)
       (sampleRendition sampleDocument ''epubcfi(/0/0/0/0:1)'' ''epubcfi(/0/0/1/0:4)'')
       \<lparr>minLength = Some 0\<rparr>
     = Some [\<lparr>text = ''lpha text.'', cfiRange = ''epubcfi(/0/0/0/0:0,/0/0/0/0:0)''\<rparr>,
             \<lparr>text = ''Beta'', cfiRange = ''epubcfi(/0/0/1/0:0,/0/0/1/0:4)''\<rparr>]"
  by code_simp

subsection \<open>Claim C4\<close>

lemma pageRange_location_fails:
  "locationFails lib d s \<or> locationFails lib d e \<Longrightarrow> pageRange lib d s e = None"
  by (auto simp: locationFails_def pageRange_def split: outcome.splits)

text \<open>
  C4, as stated, fails: with a page displayed, a start location that does not construct
  makes \<^verbatim>\<open>getCurrentViewParagraphs\<close> return null, not the empty list.
\<close>

theorem location_failure_counterexample:
  "visiblePage (sampleRendition sampleDocument ''chapter one'' ''epubcfi(/0/0/1/0:4)'')
     = Some (sampleDocument, ''chapter one'', ''epubcfi(/0/0/1/0:4)'')
   \<and> locationFails (sampleLib sampleTable) sampleDocument ''chapter one''
   \<and> getCurrentViewParagraphs (sampleLib sampleTable)
        (sampleRendition sampleDocument ''chapter one'' ''epubcfi(/0/0/1/0:4)'')
        \<lparr>minLength = None\<rparr> = None"
proof -
  have "visiblePage (sampleRendition sampleDocument ''chapter one'' ''epubcfi(/0/0/1/0:4)'')
     = Some (sampleDocument, ''chapter one'', ''epubcfi(/0/0/1/0:4)'')"
    by (simp add: visiblePage_def sampleRendition_def)
  moreover have "locationFails (sampleLib sampleTable) sampleDocument ''chapter one''"
    by (simp add: locationFails_def sampleLib_def)
  moreover have "getCurrentViewParagraphs (sampleLib sampleTable)
        (sampleRendition sampleDocument ''chapter one'' ''epubcfi(/0/0/1/0:4)'')
        \<lparr>minLength = None\<rparr> = None"
    by code_simp
  ultimately show ?thesis by simp
qed

text \<open>
  C4, amended. A location that fails (it does not construct, or it does not convert to a
  range of the document) aborts only that call and surfaces as null, never as a thrown
  exception and never as an empty list. \<^verbatim>\<open>getCurrentViewParagraphs\<close> returns null exactly
  when no page is displayed or when the page range could not be built from the two
  locations.
\<close>

theorem location_failure_is_null:
  "(getCurrentViewParagraphs lib rend opts = None \<longleftrightarrow>
      visiblePage rend = None \<or>
      (\<exists>d s e. visiblePage rend = Some (d, s, e) \<and> pageRange lib d s e = None))
   \<and> (\<forall>d s e. visiblePage rend = Some (d, s, e) \<and>
          (locationFails lib d s \<or> locationFails lib d e)
          \<longrightarrow> getCurrentViewParagraphs lib rend opts = None)"
proof -
  have 1: "getCurrentViewParagraphs lib rend opts = None \<longleftrightarrow>
      visiblePage rend = None \<or>
      (\<exists>d s e. visiblePage rend = Some (d, s, e) \<and> pageRange lib d s e = None)"
    by (auto simp: getCurrentViewParagraphs_def split: option.splits)
  have 2: "getCurrentViewParagraphs lib rend opts = None"
    if "visiblePage rend = Some (d, s, e)" "locationFails lib d s \<or> locationFails lib d e"
    for d s e
    using that pageRange_location_fails[of lib d s e] 1 by blast
  show ?thesis using 1 2 by blast
qed

theorem location_failure_is_null_witness:
  "visiblePage (sampleRendition sampleDocument ''epubcfi(/0/0/0/0:1)'' ''epubcfi(/9/9:9)'')
     = Some (sampleDocument, ''epubcfi(/0/0/0/0:1)'', ''epubcfi(/9/9:9)'')
   \<and> cfiToRange (sampleLib sampleTable) ''epubcfi(/9/9:9)'' sampleDocument = Null
   \<and> getCurrentViewParagraphs (sampleLib sampleTable)
        (sampleRendition sampleDocument ''epubcfi(/0/0/0/0:1)'' ''epubcfi(/9/9:9)'')
        \<lparr>minLength = None\<rparr> = None"
proof -
  let ?rend = "sampleRendition sampleDocument ''epubcfi(/0/0/0/0:1)'' ''epubcfi(/9/9:9)''"
  have v: "visiblePage ?rend
     = Some (sampleDocument, ''epubcfi(/0/0/0/0:1)'', ''epubcfi(/9/9:9)'')"
    by (simp add: visiblePage_def sampleRendition_def)
  have n: "cfiToRange (sampleLib sampleTable) ''epubcfi(/9/9:9)'' sampleDocument = Null"
    by (simp add: sampleLib_def sampleTable_def)
  then have f: "locationFails (sampleLib sampleTable) sampleDocument ''epubcfi(/9/9:9)''"
    by (simp add: locationFails_def)
  show ?thesis
    using location_failure_is_null[of "sampleLib sampleTable" ?rend "\<lparr>minLength = None\<rparr>"] v n f
    by blast
qed

subsection \<open>Claim C5\<close>

text \<open>
  C5 at a concrete group: in \<open>sampleRange\<close> the first paragraph has one text node, the
  start container, which is not the end container and has 11 code units. Its text is
  clipped from the start offset, its first offset is the start offset, and its last
  offset is 0, so that the range of the unit collapses to offset 0 of the text node.
\<close>

theorem last_offset_of_start_leaf:
  "textContent sampleDocument [0, 0, 0, 0] = ''Alpha text.''
   \<and> startContainer sampleRange = [0, 0, 0, 0]
   \<and> endContainer sampleRange \<noteq> [0, 0, 0, 0]
   \<and> blockElementToTextNodes sampleDocument (getTextNodesInRange sampleDocument sampleRange)
     = [([0, 0, 0], [[0, 0, 0, 0]]), ([0, 0, 1], [[0, 0, 1, 0]])]
   \<and> extractGroup sampleDocument sampleRange [[0, 0, 0, 0]]
     = \<lparr>elementText = ''lpha text.'', firstTextNode = Some [0, 0, 0, 0],
        lastTextNode = Some [0, 0, 0, 0], firstTextOffset = 1, lastTextOffset = 0\<rparr>
   \<and> getParagraphsFromRange (sampleLib sampleTable) sampleDocument sampleRange
     = [\<lparr>text = ''lpha text.'', cfiRange = ''epubcfi(/0/0/0/0:0,/0/0/0/0:0)''\<rparr>,
        \<lparr>text = ''Beta'', cfiRange = ''epubcfi(/0/0/1/0:0,/0/0/1/0:4)''\<rparr>]"
  by code_simp

subsection \<open>Claim C6\<close>

text \<open>
  C6. On the cross-section path (\<^verbatim>\<open>currentPages.max >= totalPages\<close>), when the load of
  the next unit never completes or completes after the bound, the predictor ends in
  \<open>Failed SectionLoadTimeout\<close>, \<^verbatim>\<open>getNextPageParagraphs\<close> resolves, at the bound, to the
  empty list, and no second load is requested: the result does not depend on what a
  further request would deliver.
\<close>

theorem load_timeout_yields_empty_list:
  assumes "totalPages ps \<le> currentMax ps"
    and "loadUnit c 0 = None \<or> (\<exists>t tree. loadUnit c 0 = Some (t, tree) \<and> bound < t)"
  shows "predictNext c ps n bound = Failed SectionLoadTimeout
       \<and> getNextPageParagraphs c ps n bound = []
       \<and> resolvedAt c ps bound = bound
       \<and> (\<forall>later. getNextPageParagraphs
             (c\<lparr>loadUnit := (\<lambda>k. if k = 0 then loadUnit c 0 else later k)\<rparr>) ps n bound = [])"
proof -
  have path: "choosePath ps = ComputingCrossSection"
    using assms(1) by (simp add: choosePath_def)
  have st: "predictNext c' ps n bound = Failed SectionLoadTimeout"
    if "loadUnit c' 0 = loadUnit c 0" for c' :: collaborators
    using assms(2) that path by (auto simp: predictNext_def reports_def)
  have "predictNext c ps n bound = Failed SectionLoadTimeout" by (rule st) simp
  moreover have "resolvedAt c ps bound = bound"
    using assms(2) path by (auto simp: resolvedAt_def)
  moreover have "getNextPageParagraphs
      (c\<lparr>loadUnit := (\<lambda>k. if k = 0 then loadUnit c 0 else later k)\<rparr>) ps n bound = []" for later
    using st[of "c\<lparr>loadUnit := (\<lambda>k. if k = 0 then loadUnit c 0 else later k)\<rparr>"]
    by (simp add: getNextPageParagraphs_def)
  ultimately show ?thesis by (simp add: getNextPageParagraphs_def)
qed

theorem load_timeout_yields_empty_list_witness:
  "getNextPageParagraphs
     \<lparr>currentUnit = sampleDocument,
      paragraphsOfWindow = (\<lambda>tree a b. getParagraphsFromRange (sampleLib sampleTable) tree sampleRange),
      loadUnit = (\<lambda>k. if k = 0 then Some (11, sampleDocument) else Some (0, sampleDocument))\<rparr>
     \<lparr>pageWidth = 600, totalPages = 5, currentPages = [5]\<rparr> 0 defaultTimeout = []
   \<and> resolvedAt
     \<lparr>currentUnit = sampleDocument,
      paragraphsOfWindow = (\<lambda>tree a b. getParagraphsFromRange (sampleLib sampleTable) tree sampleRange),
      loadUnit = (\<lambda>k. if k = 0 then Some (11, sampleDocument) else Some (0, sampleDocument))\<rparr>
     \<lparr>pageWidth = 600, totalPages = 5, currentPages = [5]\<rparr> defaultTimeout = 10
   \<and> map text (getNextPageParagraphs
     \<lparr>currentUnit = sampleDocument,
      paragraphsOfWindow = (\<lambda>tree a b. getParagraphsFromRange (sampleLib sampleTable) tree sampleRange),
      loadUnit = (\<lambda>k. Some (10, sampleDocument))\<rparr>
     \<lparr>pageWidth = 600, totalPages = 5, currentPages = [5]\<rparr> 0 defaultTimeout)
     = [''lpha text.'', ''Beta'']"
proof -
  let ?c = "\<lparr>currentUnit = sampleDocument,
      paragraphsOfWindow = (\<lambda>tree a b. getParagraphsFromRange (sampleLib sampleTable) tree sampleRange),
      loadUnit = (\<lambda>k. if k = 0 then Some (11, sampleDocument) else Some (0, sampleDocument))\<rparr>"
  let ?ps = "\<lparr>pageWidth = 600, totalPages = 5, currentPages = [5]\<rparr>"
  have a: "totalPages ?ps \<le> currentMax ?ps" by (simp add: currentMax_def)
  have b: "loadUnit ?c 0 = None \<or>
      (\<exists>t tree. loadUnit ?c 0 = Some (t, tree) \<and> defaultTimeout < t)"
    by (simp add: defaultTimeout_def)
  have d: "defaultTimeout = 10" by (simp add: defaultTimeout_def)
  have e: "map text (getNextPageParagraphs
     \<lparr>currentUnit = sampleDocument,
      paragraphsOfWindow = (\<lambda>tree a b. getParagraphsFromRange (sampleLib sampleTable) tree sampleRange),
      loadUnit = (\<lambda>k. Some (10, sampleDocument))\<rparr> ?ps 0 defaultTimeout)
     = [''lpha text.'', ''Beta'']"
    by code_simp
  show ?thesis
    using load_timeout_yields_empty_list[OF a b, of 0] d e by simp
qed

subsection \<open>Claim C7\<close>

lemma strip_map_filter:
  assumes "\<forall>g \<in> set xs. (f g = None \<longrightarrow> h g = []) \<and> (\<forall>p. f g = Some p \<longrightarrow> stripWhiteSpace (text p) = h g)"
  shows "stripWhiteSpace (concat (map text (List.map_filter f xs))) = concat (map h xs)"
  using assms
proof (induction xs)
  case Nil
  show ?case by (simp add: List.map_filter_simps)
next
  case (Cons g xs)
  then show ?case by (cases "f g") (auto simp: List.map_filter_simps)
qed

lemma paragraphs_strip:
  assumes v: "validRange d r" and ne: "\<not> (startContainer r = endContainer r \<and> isText d (startContainer r))"
    and od: "hasOwnerDocument (commonAncestorContainer r)"
    and lib: "\<forall>rg. cfiFromRange lib rg \<noteq> None"
    and ws: "\<forall>t \<in> set (getTextNodesInRange d r).
               findContainingBlockElement d t = None \<longrightarrow> \<not> nonWhite d r t"
    and nr: "\<not> blockResumed d r (getTextNodesInRange d r)"
  shows "stripWhiteSpace (concat (map text (getParagraphsFromRange lib d r)))
       = stripWhiteSpace (toString d r)"
proof -
  define ts where "ts = getTextNodesInRange d r"
  define gs where "gs = blockElementToTextNodes d ts"
  define h where "h = (\<lambda>g :: path \<times> path list. stripWhiteSpace (elementText (extractGroup d r (snd g))))"
  have tS: "toString d r = concat (map (clipText d r) ts)"
    unfolding ts_def by (rule toString_clipped_text_nodes[OF v ne od])
  show ?thesis
  proof (cases "trim (toString d r) = [] \<or> ts = []")
    case True
    then have "getParagraphsFromRange lib d r = []"
      by (auto simp: getParagraphsFromRange_def Let_def ts_def)
    moreover have "stripWhiteSpace (toString d r) = []"
      using True tS trim_empty_strip by auto
    ultimately show ?thesis by simp
  next
    case False
    then have ps: "getParagraphsFromRange lib d r = List.map_filter (paragraphOfGroup lib d r) gs"
      using od by (simp add: getParagraphsFromRange_def Let_def ts_def gs_def)
    have pt: "(paragraphOfGroup lib d r g = None \<longrightarrow> h g = []) \<and>
        (\<forall>p. paragraphOfGroup lib d r g = Some p \<longrightarrow> stripWhiteSpace (text p) = h g)"
      if "g \<in> set gs" for g
    proof -
      obtain b ns where g: "g = (b, ns)" by (cases g)
      have "(b, ns) \<in> set (blockElementToTextNodes d (getTextNodesInRange d r))"
        using that g by (simp add: gs_def ts_def)
      then have "trim (elementText (extractGroup d r ns)) \<noteq> [] \<longrightarrow>
          paragraphOfGroup lib d r (b, ns) \<noteq> None"
        using paragraphOfGroup_defined[OF v ne od _ lib] by blast
      then have "paragraphOfGroup lib d r g = None \<longrightarrow> trim (elementText (extractGroup d r ns)) = []"
        unfolding g by blast
      then have 1: "paragraphOfGroup lib d r g = None \<longrightarrow> h g = []"
        using trim_empty_strip g by (auto simp: h_def)
      have 2: "stripWhiteSpace (text p) = h g" if "paragraphOfGroup lib d r g = Some p" for p
        using paragraphOfGroup_text[OF that] by (simp add: h_def strip_trim)
      show ?thesis using 1 2 by blast
    qed
    have hg: "h g = concat (map (\<lambda>t. stripWhiteSpace (clipText d r t)) (snd g))" for g
      by (simp add: h_def extractGroup_elementText strip_concat comp_def)
    have "stripWhiteSpace (concat (map text (getParagraphsFromRange lib d r))) = concat (map h gs)"
      unfolding ps by (rule strip_map_filter) (use pt in blast)
    also have "\<dots> = concat (map (\<lambda>g. concat (map (\<lambda>t. stripWhiteSpace (clipText d r t)) (snd g))) gs)"
      unfolding hg ..
    also have "\<dots> = concat (map (\<lambda>t. stripWhiteSpace (clipText d r t)) ts)"
      unfolding gs_def ts_def
      by (rule groups_strip[OF getTextNodesInRange_sorted ws nr])
    also have "\<dots> = stripWhiteSpace (concat (map (clipText d r) ts))"
      by (simp add: strip_concat comp_def)
    finally show ?thesis unfolding tS .
  qed
qed

text \<open>
  C7, as stated, fails. In \<open>nestedDocument\<close> the page text is \<^verbatim>\<open>foobarbaz\<close> and the units
  are \<^verbatim>\<open>foobaz\<close> and \<^verbatim>\<open>bar\<close>: the text of the \<^verbatim>\<open>div\<close> is grouped around the nested
  paragraph, so no way of joining the units gives the page text. In \<open>sampleDocument\<close>
  the two paragraphs touch, and joining the units with a space (as the repository's own
  test does) puts a space where the page text has none; in \<open>spacedDocument\<close> the
  paragraphs are separated by a text node outside any block, and joining the units
  without a separator loses the space. In \<open>leadingDocument\<close> the \<^verbatim>\<open>div\<close> starts with a
  line break, which opens its group before the group of the nested paragraph: the units
  are \<^verbatim>\<open>baz\<close> and \<^verbatim>\<open>bar\<close>, in this order, while the page text has \<^verbatim>\<open>bar\<close> before
  \<^verbatim>\<open>baz\<close>. For a page inside one text node of \<open>sampleDocument\<close>, from offset 1 to
  offset 5, the page text is \<^verbatim>\<open>lpha\<close> and there is no unit: the tree walker is rooted
  at the text node itself, which it never returns.
\<close>

theorem concatenation_law_counterexample:
  "map_option pageText (getCurrentViewText (sampleLib sampleTable)
      (sampleRendition nestedDocument ''epubcfi(/0/0/0/0:0)'' ''epubcfi(/0/0/0/2:3)''))
     = Some ''foobarbaz''
   \<and> map_option (map text) (getCurrentViewParagraphs (sampleLib sampleTable)
      (sampleRendition nestedDocument ''epubcfi(/0/0/0/0:0)'' ''epubcfi(/0/0/0/2:3)'')
      \<lparr>minLength = Some 0\<rparr>)
     = Some [''foobaz'', ''bar'']
   \<and> normalizeWhiteSpace (joinTexts '' '' [''foobaz'', ''bar'']) \<noteq> normalizeWhiteSpace ''foobarbaz''
   \<and> normalizeWhiteSpace (joinTexts [] [''foobaz'', ''bar'']) \<noteq> normalizeWhiteSpace ''foobarbaz''
   \<and> map_option pageText (getCurrentViewText (sampleLib sampleTable)
      (sampleRendition sampleDocument ''epubcfi(/0/0/0/0:0)'' ''epubcfi(/0/0/1/0:10)''))
     = Some ''Alpha text.Beta text.''
   \<and> map_option (map text) (getCurrentViewParagraphs (sampleLib sampleTable)
      (sampleRendition sampleDocument ''epubcfi(/0/0/0/0:0)'' ''epubcfi(/0/0/1/0:10)'')
      \<lparr>minLength = Some 0\<rparr>)
     = Some [''Alpha text.'', ''Beta text.'']
   \<and> normalizeWhiteSpace (joinTexts '' '' [''Alpha text.'', ''Beta text.''])
     \<noteq> normalizeWhiteSpace ''Alpha text.Beta text.''
   \<and> map_option pageText (getCurrentViewText (sampleLib sampleTable)
      (sampleRendition spacedDocument ''epubcfi(/0/0/0/0:0)'' ''epubcfi(/0/0/2/0:6)''))
     = Some ''First one. Second''
   \<and> map_option (map text) (getCurrentViewParagraphs (sampleLib sampleTable)
      (sampleRendition spacedDocument ''epubcfi(/0/0/0/0:0)'' ''epubcfi(/0/0/2/0:6)'')
      \<lparr>minLength = Some 0\<rparr>)
     = Some [''First one.'', ''Second'']
   \<and> normalizeWhiteSpace (joinTexts [] [''First one.'', ''Second''])
     \<noteq> normalizeWhiteSpace ''First one. Second''
   \<and> map_option pageText (getCurrentViewText (sampleLib sampleTable)
      (sampleRendition leadingDocument ''epubcfi(/0/0/0/0:0)'' ''epubcfi(/0/0/0/2:3)''))
     = Some (CHR 0x0A # ''barbaz'')
   \<and> map_option (map text) (getCurrentViewParagraphs (sampleLib sampleTable)
      (sampleRendition leadingDocument ''epubcfi(/0/0/0/0:0)'' ''epubcfi(/0/0/0/2:3)'')
      \<lparr>minLength = Some 0\<rparr>)
     = Some [''baz'', ''bar'']
   \<and> normalizeWhiteSpace (joinTexts '' '' [''baz'', ''bar''])
     \<noteq> normalizeWhiteSpace (CHR 0x0A # ''barbaz'')
   \<and> normalizeWhiteSpace (joinTexts [] [''baz'', ''bar''])
     \<noteq> normalizeWhiteSpace (CHR 0x0A # ''barbaz'')
   \<and> map_option pageText (getCurrentViewText (sampleLib sampleTable)
      (sampleRendition sampleDocument ''epubcfi(/0/0/0/0:1)'' ''epubcfi(/0/0/0/0:5)''))
     = Some ''lpha''
   \<and> map_option (map text) (getCurrentViewParagraphs (sampleLib sampleTable)
      (sampleRendition sampleDocument ''epubcfi(/0/0/0/0:1)'' ''epubcfi(/0/0/0/0:5)'')
      \<lparr>minLength = Some 0\<rparr>)
     = Some []
   \<and> normalizeWhiteSpace (joinTexts [] []) \<noteq> normalizeWhiteSpace ''lpha''"
  by code_simp

text \<open>
  C7, amended. Let a page be displayed whose two locations resolve, whose range does not
  start and end in one and the same text node and has a common ancestor other than the
  Document node, let the CFI library serialize every range, and let \<^verbatim>\<open>minLength\<close> be 0, so
  that the law does not rest on the length filter being left out. Call a text node of the
  range blank when the part of its text inside the range is white space only. If every
  text node of the range without a block-level ancestor is blank, and no block element is
  resumed (there are no three text nodes \<open>x\<close>, \<open>y\<close>, \<open>z\<close> of the range, in document
  order, with \<open>x\<close> and \<open>z\<close> in the same nearest block element, \<open>y\<close> in another one, and
  \<open>y\<close> and \<open>z\<close> not blank), then the texts of the units returned by
  \<^verbatim>\<open>getCurrentViewParagraphs\<close>, concatenated in order, and the text returned by
  \<^verbatim>\<open>getCurrentViewText\<close> are equal once all white space is deleted: no character other
  than white space is lost, duplicated or moved by the grouping. Blank text nodes between
  the blocks, such as the line breaks between the tags of \<open>wrappedDocument\<close>, do not
  stand against the law.
\<close>

theorem paragraphs_cover_page_text:
  assumes "visiblePage rend = Some (d, s, e)" and "pageRange lib d s e = Some r"
    and "minLength opts = Some 0"
    and "\<not> (startContainer r = endContainer r \<and> isText d (startContainer r))"
    and "commonAncestorContainer r \<noteq> []"
    and "\<forall>rg. cfiFromRange lib rg \<noteq> None"
    and "\<forall>t \<in> set (getTextNodesInRange d r).
           findContainingBlockElement d t = None \<longrightarrow> \<not> nonWhite d r t"
    and "\<not> blockResumed d r (getTextNodesInRange d r)"
  shows "\<exists>ps t. getCurrentViewParagraphs lib rend opts = Some ps \<and>
           getCurrentViewText lib rend = Some t \<and>
           stripWhiteSpace (concat (map text ps)) = stripWhiteSpace (pageText t)"
proof -
  have v: "validRange d r" using assms(2) by (rule pageRange_valid)
  have od: "hasOwnerDocument (commonAncestorContainer r)"
    using assms(5) by (simp add: hasOwnerDocument_def)
  have "stripWhiteSpace (concat (map text (getParagraphsFromRange lib d r)))
       = stripWhiteSpace (toString d r)"
    by (rule paragraphs_strip[OF v assms(4) od assms(6) assms(7) assms(8)])
  then show ?thesis
    using assms(1,2) by (simp add: getCurrentViewParagraphs_def getCurrentViewText_def)
qed

theorem paragraphs_cover_page_text_witness:
  "map_option (map text) (getCurrentViewParagraphs (sampleLib wrappedTable)
      (sampleRendition wrappedDocument ''epubcfi(/0/0/0/0:0)'' ''epubcfi(/0/0/0/4:1)'')
      \<lparr>minLength = Some 0\<rparr>)
     = Some [''First one.'', ''Second'']
   \<and> map_option pageText (getCurrentViewText (sampleLib wrappedTable)
      (sampleRendition wrappedDocument ''epubcfi(/0/0/0/0:0)'' ''epubcfi(/0/0/0/4:1)''))
     = Some (CHR 0x0A # ''First one.'' @ CHR 0x0A # ''Second'' @ [CHR 0x0A])
   \<and> getTextNodesInRange wrappedDocument
        \<lparr>startContainer = [0, 0, 0, 0], startOffset = 0, endContainer = [0, 0, 0, 4], endOffset = 1\<rparr>
     = [[0, 0, 0, 0], [0, 0, 0, 1, 0], [0, 0, 0, 2], [0, 0, 0, 3, 0], [0, 0, 0, 4]]
   \<and> map (findContainingBlockElement wrappedDocument)
        [[0, 0, 0, 0], [0, 0, 0, 1, 0], [0, 0, 0, 2], [0, 0, 0, 3, 0], [0, 0, 0, 4]]
     = [Some [0, 0, 0], Some [0, 0, 0, 1], Some [0, 0, 0], Some [0, 0, 0, 3], Some [0, 0, 0]]
   \<and> stripWhiteSpace (concat [''First one.'', ''Second''])
     = stripWhiteSpace (CHR 0x0A # ''First one.'' @ CHR 0x0A # ''Second'' @ [CHR 0x0A])"
proof -
  let ?lib = "sampleLib wrappedTable"
  let ?rend = "sampleRendition wrappedDocument ''epubcfi(/0/0/0/0:0)'' ''epubcfi(/0/0/0/4:1)''"
  let ?r = "\<lparr>startContainer = [0, 0, 0, 0], startOffset = 0,
             endContainer = [0, 0, 0, 4], endOffset = 1\<rparr>"
  let ?opts = "\<lparr>minLength = Some 0\<rparr>"
  have h1: "visiblePage ?rend
      = Some (wrappedDocument, ''epubcfi(/0/0/0/0:0)'', ''epubcfi(/0/0/0/4:1)'')"
    by (simp add: visiblePage_def sampleRendition_def)
  have h2: "pageRange ?lib wrappedDocument ''epubcfi(/0/0/0/0:0)'' ''epubcfi(/0/0/0/4:1)'' = Some ?r"
    by code_simp
  have h3: "minLength ?opts = Some 0" by simp
  have h4: "\<not> (startContainer ?r = endContainer ?r \<and> isText wrappedDocument (startContainer ?r))"
    by simp
  have h5: "commonAncestorContainer ?r \<noteq> []" by (simp add: commonAncestorContainer_def)
  have h6: "\<forall>rg. cfiFromRange ?lib rg \<noteq> None" by (simp add: sampleLib_def)
  have ts: "getTextNodesInRange wrappedDocument ?r
      = [[0, 0, 0, 0], [0, 0, 0, 1, 0], [0, 0, 0, 2], [0, 0, 0, 3, 0], [0, 0, 0, 4]]"
    by code_simp
  have h7: "\<forall>t \<in> set (getTextNodesInRange wrappedDocument ?r).
      findContainingBlockElement wrappedDocument t = None \<longrightarrow> \<not> nonWhite wrappedDocument ?r t"
    unfolding ts by code_simp
  have h8: "\<not> blockResumed wrappedDocument ?r (getTextNodesInRange wrappedDocument ?r)"
    unfolding ts by code_simp
  have p: "map_option (map text) (getCurrentViewParagraphs ?lib ?rend ?opts)
     = Some [''First one.'', ''Second'']"
    by code_simp
  have t: "map_option pageText (getCurrentViewText ?lib ?rend)
     = Some (CHR 0x0A # ''First one.'' @ CHR 0x0A # ''Second'' @ [CHR 0x0A])"
    by code_simp
  have k: "map (findContainingBlockElement wrappedDocument)
        [[0, 0, 0, 0], [0, 0, 0, 1, 0], [0, 0, 0, 2], [0, 0, 0, 3, 0], [0, 0, 0, 4]]
     = [Some [0, 0, 0], Some [0, 0, 0, 1], Some [0, 0, 0], Some [0, 0, 0, 3], Some [0, 0, 0]]"
    by code_simp
  from paragraphs_cover_page_text[OF h1 h2 h3 h4 h5 h6 h7 h8]
  obtain ps t' where "getCurrentViewParagraphs ?lib ?rend ?opts = Some ps"
    "getCurrentViewText ?lib ?rend = Some t'"
    "stripWhiteSpace (concat (map text ps)) = stripWhiteSpace (pageText t')"
    by blast
  then have "stripWhiteSpace (concat [''First one.'', ''Second''])
      = stripWhiteSpace (CHR 0x0A # ''First one.'' @ CHR 0x0A # ''Second'' @ [CHR 0x0A])"
    using p t by simp
  then show ?thesis using p t ts k by simp
qed

subsection \<open>Claim C8\<close>

lemma distinct_concat_filter:
  "distinct (concat (map snd gs)) \<Longrightarrow> distinct (concat (map snd (filter P gs)))"
  by (induction gs) auto

lemma units_of_groups:
  "\<exists>used. subseq used (blockElementToTextNodes d (getTextNodesInRange d r)) \<and>
     distinct (concat (map snd used)) \<and>
     map text (getParagraphsFromRange lib d r)
       = map (\<lambda>g. trim (concat (map (clipText d r) (snd g)))) used"
proof -
  define gs where "gs = blockElementToTextNodes d (getTextNodesInRange d r)"
  define f where "f = paragraphOfGroup lib d r"
  have dist: "distinct (concat (map snd gs))"
    unfolding gs_def by (rule groups_concat_distinct[OF getTextNodesInRange_distinct])
  have cases: "getParagraphsFromRange lib d r = [] \<or>
      getParagraphsFromRange lib d r = List.map_filter f gs"
    unfolding gs_def f_def getParagraphsFromRange_def by (simp add: Let_def)
  show ?thesis
  proof (cases "getParagraphsFromRange lib d r = []")
    case True
    have "subseq [] gs \<and> distinct (concat (map snd ([] :: groups)))" by simp
    then show ?thesis using True unfolding gs_def by fastforce
  next
    case False
    then have ps: "getParagraphsFromRange lib d r = List.map_filter f gs" using cases by simp
    define used where "used = filter (\<lambda>g. f g \<noteq> None) gs"
    have sub: "subseq used gs" unfolding used_def by simp
    have du: "distinct (concat (map snd used))"
      unfolding used_def using dist by (rule distinct_concat_filter)
    have "text (the (f g)) = trim (concat (map (clipText d r) (snd g)))" if "g \<in> set used" for g
    proof -
      from that obtain p where p: "f g = Some p" unfolding used_def by auto
      then have "text p = trim (elementText (extractGroup d r (snd g)))"
        unfolding f_def by (rule paragraphOfGroup_text)
      then show ?thesis using p by (simp add: extractGroup_elementText)
    qed
    then have "map (\<lambda>g. text (the (f g))) used
        = map (\<lambda>g. trim (concat (map (clipText d r) (snd g)))) used"
      by (intro map_cong[OF refl]) blast
    then have "map text (getParagraphsFromRange lib d r)
        = map (\<lambda>g. trim (concat (map (clipText d r) (snd g)))) used"
      unfolding ps List.map_filter_def used_def by (simp add: comp_def)
    then show ?thesis using sub du unfolding gs_def by blast
  qed
qed

text \<open>
  C8. In one extraction call, the groups are keyed by pairwise different block elements,
  no text node of the range occurs twice in the groups (so it is in at most one group),
  every text node of a group has the key of the group as its nearest block-level ancestor
  (the key is a proper ancestor that matches the block selectors, and no element between
  the two matches), and the returned list is either empty or has at most one unit per
  group. The units of the returned list belong, in order, to groups of the list (a
  subsequence \<open>used\<close> of the groups) that share no text node, and the text of each unit
  is the trimmed concatenation of the clipped texts of the text nodes of its own group:
  the content of a text node reaches at most one unit.
\<close>

theorem text_node_in_one_group:
  "(let gs = blockElementToTextNodes d (getTextNodesInRange d r) in
     distinct (map fst gs) \<and>
     distinct (concat (map snd gs)) \<and>
     (\<forall>(b, ns) \<in> set gs. \<forall>t \<in> set ns.
        t \<in> set (getTextNodesInRange d r) \<and>
        findContainingBlockElement d t = Some b \<and>
        strict_prefix b t \<and> matches d b blockSelectors \<and>
        (\<forall>a. strict_prefix a t \<and> strict_prefix b a \<longrightarrow> \<not> matches d a blockSelectors)) \<and>
     (getParagraphsFromRange lib d r = [] \<or>
      getParagraphsFromRange lib d r = List.map_filter (paragraphOfGroup lib d r) gs) \<and>
     (\<exists>used. subseq used gs \<and>
        distinct (concat (map snd used)) \<and>
        map text (getParagraphsFromRange lib d r)
          = map (\<lambda>g. trim (concat (map (clipText d r) (snd g)))) used))"
proof -
  define ts where "ts = getTextNodesInRange d r"
  define gs where "gs = blockElementToTextNodes d ts"
  have 1: "distinct (map fst gs)" unfolding gs_def by (rule groups_keys_distinct)
  have 2: "distinct (concat (map snd gs))"
    unfolding gs_def ts_def by (rule groups_concat_distinct[OF getTextNodesInRange_distinct])
  have 3: "t \<in> set ts \<and> findContainingBlockElement d t = Some b \<and>
        strict_prefix b t \<and> matches d b blockSelectors \<and>
        (\<forall>a. strict_prefix a t \<and> strict_prefix b a \<longrightarrow> \<not> matches d a blockSelectors)"
    if "(b, ns) \<in> set gs" "t \<in> set ns" for b ns t
  proof -
    have f: "findContainingBlockElement d t = Some b"
      using groups_member[of d ts] that unfolding gs_def by blast
    have "t \<in> set (concat (map snd gs))" using that by force
    then have "t \<in># mset (concat (map snd gs))" by simp
    then have "t \<in> set ts" unfolding gs_def groups_mset by simp
    then show ?thesis using f findContainingBlockElement_nearest[OF f] by blast
  qed
  have 4: "getParagraphsFromRange lib d r = [] \<or>
      getParagraphsFromRange lib d r = List.map_filter (paragraphOfGroup lib d r) gs"
    unfolding gs_def ts_def getParagraphsFromRange_def by (simp add: Let_def)
  have 5: "\<exists>used. subseq used gs \<and>
        distinct (concat (map snd used)) \<and>
        map text (getParagraphsFromRange lib d r)
          = map (\<lambda>g. trim (concat (map (clipText d r) (snd g)))) used"
    unfolding gs_def ts_def by (rule units_of_groups)
  show ?thesis
    using 1 2 3 4 5 unfolding Let_def gs_def ts_def by blast
qed

theorem text_node_in_one_group_witness:
  "blockElementToTextNodes sampleDocument (getTextNodesInRange sampleDocument sampleRange)
     = [([0, 0, 0], [[0, 0, 0, 0]]), ([0, 0, 1], [[0, 0, 1, 0]])] \<and>
   findContainingBlockElement sampleDocument [0, 0, 0, 0] = Some [0, 0, 0] \<and>
   findContainingBlockElement sampleDocument [0, 0, 1, 0] = Some [0, 0, 1] \<and>
   matches sampleDocument [0, 0, 0] blockSelectors \<and>
   matches sampleDocument [0, 0, 1] blockSelectors \<and>
   map text (getParagraphsFromRange (sampleLib sampleTable) sampleDocument sampleRange)
     = [''lpha text.'', ''Beta''] \<and>
   map (\<lambda>g. trim (concat (map (clipText sampleDocument sampleRange) (snd g))))
     [([0, 0, 0], [[0, 0, 0, 0]]), ([0, 0, 1], [[0, 0, 1, 0]])]
     = [''lpha text.'', ''Beta'']"
proof -
  have gs: "blockElementToTextNodes sampleDocument (getTextNodesInRange sampleDocument sampleRange)
     = [([0, 0, 0], [[0, 0, 0, 0]]), ([0, 0, 1], [[0, 0, 1, 0]])]"
    by code_simp
  have ps: "map text (getParagraphsFromRange (sampleLib sampleTable) sampleDocument sampleRange)
     = [''lpha text.'', ''Beta'']"
    by code_simp
  have cl: "map (\<lambda>g. trim (concat (map (clipText sampleDocument sampleRange) (snd g))))
     [([0, 0, 0], [[0, 0, 0, 0]]), ([0, 0, 1], [[0, 0, 1, 0]])]
     = [''lpha text.'', ''Beta'']"
    by code_simp
  show ?thesis
    using text_node_in_one_group[of sampleDocument sampleRange "sampleLib sampleTable"]
    unfolding gs Let_def using ps cl
    by simp
qed

subsection \<open>Claim C9\<close>





subsection \<open>Claim C10\<close>

lemma visiblePage_first_section:
  assumes "currentLocation m = Some (v # rest)" and "currentLocation m' = Some (v # rest')"
    and "\<forall>w. v = Some w \<longrightarrow> viewsFind m (index w) = viewsFind m' (index w)"
  shows "visiblePage \<lparr>manager = Some m\<rparr> = visiblePage \<lparr>manager = Some m'\<rparr>"
  using assms by (cases v) (auto simp: visiblePage_def split: option.splits)

text \<open>
  C10. \<^verbatim>\<open>getCurrentViewText\<close> and \<^verbatim>\<open>getCurrentViewParagraphs\<close> read the current location
  only at index 0 and the views only at the section index found there: two managers whose
  locations start with the same section and whose views agree for that section give the
  same results, whatever further sections are visible.
\<close>

theorem first_visible_section_only:
  assumes "currentLocation m = Some (v # rest)" and "currentLocation m' = Some (v # rest')"
    and "\<forall>w. v = Some w \<longrightarrow> viewsFind m (index w) = viewsFind m' (index w)"
  shows "getCurrentViewText lib \<lparr>manager = Some m\<rparr> = getCurrentViewText lib \<lparr>manager = Some m'\<rparr>
       \<and> getCurrentViewParagraphs lib \<lparr>manager = Some m\<rparr> opts
           = getCurrentViewParagraphs lib \<lparr>manager = Some m'\<rparr> opts"
  using visiblePage_first_section[OF assms]
  by (simp add: getCurrentViewText_def getCurrentViewParagraphs_def)

theorem first_visible_section_only_witness:
  "getCurrentViewText (sampleLib sampleTable) \<lparr>manager = Some twoSectionManager\<rparr>
     = Some \<lparr>pageText = ''lpha text.Beta'', startCfi = ''epubcfi(/0/0/0/0:1)'',
             endCfi = ''epubcfi(/0/0/1/0:4)''\<rparr>
   \<and> getCurrentViewParagraphs (sampleLib sampleTable) \<lparr>manager = Some twoSectionManager\<rparr>
         \<lparr>minLength = Some 0\<rparr>
     = getCurrentViewParagraphs (sampleLib sampleTable)
         (sampleRendition sampleDocument ''epubcfi(/0/0/0/0:1)'' ''epubcfi(/0/0/1/0:4)'')
         \<lparr>minLength = Some 0\<rparr>"
proof -
  let ?v = "Some \<lparr>index = 0, mapping = Some \<lparr>start = Some ''epubcfi(/0/0/0/0:1)'',
                                              end = Some ''epubcfi(/0/0/1/0:4)''\<rparr>\<rparr>"
  let ?m' = "\<lparr>currentLocation = Some [?v],
      viewsFind = (\<lambda>i. if i = 0 then Some \<lparr>contents = Some \<lparr>document = Some sampleDocument\<rparr>\<rparr>
                        else None)\<rparr>"
  have a: "currentLocation twoSectionManager
      = Some (?v # [Some \<lparr>index = 1, mapping = Some \<lparr>start = Some ''epubcfi(/0/0/0/0:0)'',
                                              end = Some ''epubcfi(/0/0/1/0:5)''\<rparr>\<rparr>])"
    by (simp add: twoSectionManager_def)
  have b: "currentLocation ?m' = Some (?v # [])" by simp
  have c: "\<forall>w. ?v = Some w \<longrightarrow> viewsFind twoSectionManager (index w) = viewsFind ?m' (index w)"
    by (simp add: twoSectionManager_def)
  have t: "getCurrentViewText (sampleLib sampleTable) \<lparr>manager = Some ?m'\<rparr>
     = Some \<lparr>pageText = ''lpha text.Beta'', startCfi = ''epubcfi(/0/0/0/0:1)'',
             endCfi = ''epubcfi(/0/0/1/0:4)''\<rparr>"
    by code_simp
  show ?thesis
    using first_visible_section_only[OF a b c, of "sampleLib sampleTable" "\<lparr>minLength = Some 0\<rparr>"] t
    by (simp add: sampleRendition_def)
qed

end
